theory Spec2Isabelle
  imports Complex_Main
begin

section \<open>The trending score\<close>

text \<open>
  A JavaScript number is an IEEE-754 double.  It is modelled by the real that it denotes,
  and an arithmetic operation of the language rounds its exact result to the nearest
  double, a tie to the even significand (\<open>to_double\<close>): 53 bits of significand, and
  below \<open>2 ^ -1022\<close> the fixed spacing \<open>2 ^ -1074\<close> of the subnormal numbers.  The two
  zeros are one number, and NaN and the infinities are not represented.  A result beyond
  the largest double is kept as the real of 53 bits that it rounds to, where the language
  has Infinity: for metrics that are doubles only the last sum of the score can be that
  large, and only upwards, and the final clamp takes both to 100.
\<close>

fun bit_length :: "nat \<Rightarrow> nat" where
  "bit_length n = (if n = 0 then 0 else Suc (bit_length (n div 2)))"

declare bit_length.simps [simp del]

text \<open>The exponent \<open>k\<close> with \<open>2 ^ k \<le> a < 2 ^ (k + 1)\<close>, for a positive \<open>a\<close>.\<close>

definition binary_exponent :: "real \<Rightarrow> int" where
  "binary_exponent a =
     (if 1 \<le> a then int (bit_length (nat \<lfloor>a\<rfloor>)) - 1
      else - int (bit_length (nat (\<lceil>1 / a\<rceil> - 1))))"

definition pow2 :: "int \<Rightarrow> real" where
  "pow2 e = (if 0 \<le> e then 2 ^ nat e else 1 / 2 ^ nat (- e))"

definition round_half_even :: "real \<Rightarrow> int" where
  "round_half_even q =
     (let f = \<lfloor>q\<rfloor>; d = q - of_int f
      in if d < 1 / 2 then f else if 1 / 2 < d then f + 1 else if even f then f else f + 1)"

definition to_double :: "real \<Rightarrow> real" where
  "to_double x =
     (if x = 0 then 0
      else let e = max (binary_exponent \<bar>x\<bar> - 52) (- 1074)
           in sgn x * of_int (round_half_even (\<bar>x\<bar> / pow2 e)) * pow2 e)"

definition double_add :: "real \<Rightarrow> real \<Rightarrow> real" where
  "double_add x y = to_double (x + y)"

definition double_mul :: "real \<Rightarrow> real \<Rightarrow> real" where
  "double_mul x y = to_double (x * y)"

definition double_div :: "real \<Rightarrow> real \<Rightarrow> real" where
  "double_div x y = to_double (x / y)"

text \<open>
  The metrics object is an open bag of properties, so each property is optional: \<open>None\<close>
  is a property that is \<open>undefined\<close>, which is when a destructuring default applies.
\<close>

record metrics =
  activityScore :: "real option"
  liquidityHealthScore :: "real option"
  momentumScore :: "real option"
  distributionScore :: "real option"
  buyVsSellRatio :: "real option"
  priceChange24h :: "real option"

definition or_undefined :: "real option \<Rightarrow> real \<Rightarrow> real" where
  "or_undefined v d = (case v of None \<Rightarrow> d | Some x \<Rightarrow> x)"

text \<open>
  \<open>Math.round\<close> yields the nearest integer, a tie towards plus infinity; it is exact on a
  double.  \<open>Math.min\<close> and \<open>Math.max\<close> are exact as well.
\<close>

definition Math_round :: "real \<Rightarrow> real" where
  "Math_round x = of_int \<lfloor>x + 1 / 2\<rfloor>"

text \<open>
  Lines 35 to 54.  The literals are the doubles nearest to the decimals written, and the
  sum associates to the left.
\<close>

definition calculateTrendingScore :: "metrics \<Rightarrow> real" where
  "calculateTrendingScore m =
    (let a = or_undefined (activityScore m) 0;
         l = or_undefined (liquidityHealthScore m) 0;
         mo = or_undefined (momentumScore m) 0;
         d = or_undefined (distributionScore m) 0;
         b = or_undefined (buyVsSellRatio m) 1;
         p = or_undefined (priceChange24h m) 0;
         score =
           double_add
             (double_add
               (double_add
                 (double_add
                   (double_add (double_mul a (to_double 0.25)) (double_mul l (to_double 0.2)))
                   (double_mul d (to_double 0.15)))
                 (double_mul mo (to_double 0.1)))
               (double_mul (min b 100) (to_double 0.1)))
             (double_div (max p (- 100)) 2)
     in max 0 (min 100 (Math_round score)))"

text \<open>
  The formula as the specification writes it: the weighted sum is clamped to \<open>[0, 100]\<close>
  first and rounded afterwards.  \<open>spec_score\<close> reads its arithmetic as that of the reals;
  \<open>spec_score_in_doubles\<close> reads it as that of the language, operation by operation in
  the order written.
\<close>

definition clamp :: "real \<Rightarrow> real \<Rightarrow> real \<Rightarrow> real" where
  "clamp x lo hi = max lo (min hi x)"

definition weighted_sum :: "real \<Rightarrow> real \<Rightarrow> real \<Rightarrow> real \<Rightarrow> real \<Rightarrow> real \<Rightarrow> real" where
  "weighted_sum activity liquidity distribution momentum ratio change =
     activity * 0.25 + liquidity * 0.20 + distribution * 0.15 + momentum * 0.10
        + min ratio 100 * 0.10 + max (- 100) change / 2"

definition spec_score :: "real \<Rightarrow> real \<Rightarrow> real \<Rightarrow> real \<Rightarrow> real \<Rightarrow> real \<Rightarrow> real" where
  "spec_score activity liquidity distribution momentum ratio change =
     Math_round (clamp (weighted_sum activity liquidity distribution momentum ratio change) 0 100)"

definition weighted_sum_in_doubles ::
  "real \<Rightarrow> real \<Rightarrow> real \<Rightarrow> real \<Rightarrow> real \<Rightarrow> real \<Rightarrow> real" where
  "weighted_sum_in_doubles activity liquidity distribution momentum ratio change =
     double_add
       (double_add
         (double_add
           (double_add
             (double_add (double_mul activity (to_double 0.25))
                (double_mul liquidity (to_double 0.20)))
             (double_mul distribution (to_double 0.15)))
           (double_mul momentum (to_double 0.10)))
         (double_mul (min ratio 100) (to_double 0.10)))
       (double_div (max (- 100) change) 2)"

definition spec_score_in_doubles ::
  "real \<Rightarrow> real \<Rightarrow> real \<Rightarrow> real \<Rightarrow> real \<Rightarrow> real \<Rightarrow> real" where
  "spec_score_in_doubles activity liquidity distribution momentum ratio change =
     Math_round
       (clamp (weighted_sum_in_doubles activity liquidity distribution momentum ratio change) 0 100)"

definition example_metrics :: metrics where
  "example_metrics = \<lparr> activityScore = Some 80, liquidityHealthScore = Some 50,
     momentumScore = Some 30, distributionScore = Some 60, buyVsSellRatio = Some 2,
     priceChange24h = Some 10 \<rparr>"

definition distribution_only :: metrics where
  "distribution_only = \<lparr> activityScore = None, liquidityHealthScore = None,
     momentumScore = None, distributionScore = Some 36, buyVsSellRatio = None,
     priceChange24h = None \<rparr>"

section \<open>The batch scheduler \<open>analyzeAndStoreTokens\<close>\<close>

text \<open>
  The function of \<open>apps/Envio/src/index.ts\<close>, lines 57 to 157.  The cache client, the
  transaction collector \<open>getAllTokenTransactions\<close>, the metadata service \<open>metadata\<close> and
  the scoring accumulator \<open>OnChainAggregator\<close> are imported there: what they answer is an
  input of the model.
\<close>

subsection \<open>Data\<close>

record TokenAddress =
  address :: string
  chainId :: real
  chainName :: string
  firstSeenBlock :: real
  firstSeenTimestamp :: real
  ageInHours :: real
  transactionHash :: string

text \<open>The object that a successful pass serialises into the cache.\<close>

record stored_metrics =
  stored_activityScore :: "real option"
  stored_liquidityHealthScore :: "real option"
  stored_momentumScore :: "real option"
  stored_distributionScore :: "real option"
  stored_buyVsSellRatio :: "real option"

record CachedTokenRecord =
  cached_address :: string
  cached_chainId :: real
  cached_chainName :: string
  trendingscore :: real
  block :: real
  timestamp :: real
  cached_ageInHours :: real
  lastUpdated :: real
  cached_metrics :: stored_metrics

text \<open>
  The observable effects of a run are kept in a trace: the calls issued to the
  collaborators (the cache client, the transaction collector, the metadata service), the
  sampled log lines, and the start and the settlement of every per-token task.  The
  number in an event is the position of the token in the token list.  A \<open>ClientSet\<close>
  records the key and the object whose serialisation is written.
\<close>

datatype call =
    ClientGet string
  | GetAllTokenTransactions string
  | Metadata string
  | ClientSet string CachedTokenRecord

datatype event =
    Started nat
  | Called nat call
  | LoggedSuccess nat
  | LoggedError nat string
  | Settled nat
  | Progress nat nat nat nat nat

text \<open>
  A per-token task is an async function: it runs until its next \<open>await\<close> and gives
  control back.  Its continuation is the \<open>await\<close> it is suspended at, with the local
  variables that are live there; \<open>Fulfilled\<close> is the task that has returned.
\<close>

datatype 'tx continuation =
    AwaitGet
  | AwaitTransactions
  | AwaitMetadata "'tx list option"
  | AwaitSet string string
  | Fulfilled

record result =
  result_updated :: nat
  result_skipped :: nat
  result_noData :: nat
  result_failed :: nat

datatype control = LoopHead | AwaitAll | Returned result

text \<open>
  The state of one call of \<open>analyzeAndStoreTokens\<close>: its five counters, the cache (keys
  and values are strings), the trace, the loop variable \<open>i\<close>, the tasks of the batch in
  flight (each with the position of its token, the token, and its continuation), and the
  point the driver loop is at.  The cache changes by the writes of this call only.  The
  two banner lines that the function logs at its entry and before its return are not
  events of the trace.
\<close>

record 'tx state =
  processed :: nat
  updated :: nat
  skipped :: nat
  failed :: nat
  noData :: nat
  cache :: "string \<rightharpoonup> string"
  trace :: "event list"
  i :: real
  tasks :: "(nat \<times> TokenAddress \<times> 'tx continuation) list"
  control :: control

text \<open>
  The arguments of the call, and the two functions of the per-token pipeline that are not
  part of this file of the repository: the scoring accumulator (\<open>addTransactions\<close>,
  \<open>addTokenData\<close>, \<open>analyzeOnChain\<close> on a fresh instance, which yields the metrics or
  throws) and \<open>JSON.stringify\<close>.
\<close>

record ('tx, 'meta) invocation =
  tokens :: "TokenAddress list"
  forceUpdate :: bool
  concurrency :: real
  analyzeOnChain :: "'tx list \<Rightarrow> 'meta \<Rightarrow> string + metrics"
  JSON_stringify :: "CachedTokenRecord \<Rightarrow> string"

subsection \<open>The per-token pipeline, block by block\<close>

text \<open>The \<open>finally\<close> block (lines 143 to 145), after which the task has returned.\<close>

definition finally_block :: "nat \<Rightarrow> 'tx state \<Rightarrow> 'tx state" where
  "finally_block j s = s\<lparr>processed := processed s + 1, trace := trace s @ [Settled j]\<rparr>"

text \<open>
  The \<open>catch\<close> block (lines 138 to 142): count the failure, log it while the count is at
  most five.
\<close>

definition catch_block :: "nat \<Rightarrow> string \<Rightarrow> 'tx state \<Rightarrow> 'tx state" where
  "catch_block j err s =
     (let s1 = s\<lparr>failed := failed s + 1\<rparr>;
          s2 = (if failed s1 \<le> 5 then s1\<lparr>trace := trace s1 @ [LoggedError j err]\<rparr> else s1)
      in finally_block j s2)"

text \<open>
  \<open>client.get\<close> resolves to \<open>null\<close> or a string; the test \<open>existingData && !forceUpdate\<close>
  takes the empty string for absent, as \<open>null\<close>.
\<close>

definition truthy_string :: "string option \<Rightarrow> bool" where
  "truthy_string v = (case v of None \<Rightarrow> False | Some str \<Rightarrow> str \<noteq> [])"

text \<open>
  Each block below is the code that runs when the awaited promise settles, up to the
  next \<open>await\<close>: \<open>Inl err\<close> is a promise that rejected with \<open>err\<close>, and control goes
  to the \<open>catch\<close> block.  After \<open>client.get\<close> (lines 77 to 85): the skip test, or the
  call of the transaction collector.  After the transactions (line 86): the call of the
  metadata service, with the transactions kept for the validation that follows it.
\<close>

definition after_get ::
  "bool \<Rightarrow> nat \<Rightarrow> TokenAddress \<Rightarrow> string + string option \<Rightarrow> 'tx state
     \<Rightarrow> 'tx continuation \<times> 'tx state" where
  "after_get force j token r s =
     (case r of
        Inl err \<Rightarrow> (Fulfilled, catch_block j err s)
      | Inr existingData \<Rightarrow>
          if truthy_string existingData \<and> \<not> force
          then (Fulfilled, finally_block j (s\<lparr>skipped := skipped s + 1\<rparr>))
          else (AwaitTransactions,
                s\<lparr>trace := trace s @ [Called j (GetAllTokenTransactions (address token))]\<rparr>))"

definition after_transactions ::
  "nat \<Rightarrow> TokenAddress \<Rightarrow> string + 'tx list option \<Rightarrow> 'tx state
     \<Rightarrow> 'tx continuation \<times> 'tx state" where
  "after_transactions j token r s =
     (case r of
        Inl err \<Rightarrow> (Fulfilled, catch_block j err s)
      | Inr transactions \<Rightarrow>
          (AwaitMetadata transactions,
           s\<lparr>trace := trace s @ [Called j (Metadata (address token))]\<rparr>))"

definition cached_record :: "TokenAddress \<Rightarrow> real \<Rightarrow> real \<Rightarrow> metrics \<Rightarrow> CachedTokenRecord" where
  "cached_record token score now onChainMetrics =
     \<lparr> cached_address = address token,
       cached_chainId = chainId token,
       cached_chainName = chainName token,
       trendingscore = score,
       block = firstSeenBlock token,
       timestamp = firstSeenTimestamp token,
       cached_ageInHours = ageInHours token,
       lastUpdated = now,
       cached_metrics = \<lparr> stored_activityScore = activityScore onChainMetrics,
         stored_liquidityHealthScore = liquidityHealthScore onChainMetrics,
         stored_momentumScore = momentumScore onChainMetrics,
         stored_distributionScore = distributionScore onChainMetrics,
         stored_buyVsSellRatio = buyVsSellRatio onChainMetrics \<rparr> \<rparr>"

text \<open>
  After the metadata arrives (lines 88 to 135): the two validations, the accumulator, the
  score, the sampled log line and the call of \<open>client.set\<close>.  \<open>now\<close> is the reading of
  \<open>Date.now()\<close>.
\<close>

definition after_metadata ::
  "('tx, 'meta) invocation \<Rightarrow> nat \<Rightarrow> TokenAddress \<Rightarrow> 'tx list option \<Rightarrow> string + 'meta option
     \<Rightarrow> real \<Rightarrow> 'tx state \<Rightarrow> 'tx continuation \<times> 'tx state" where
  "after_metadata args j token transactions r now s =
     (case r of
        Inl err \<Rightarrow> (Fulfilled, catch_block j err s)
      | Inr analysis \<Rightarrow>
          (case transactions of
             None \<Rightarrow> (Fulfilled, finally_block j (s\<lparr>noData := noData s + 1\<rparr>))
           | Some txs \<Rightarrow>
               if length txs = 0 then (Fulfilled, finally_block j (s\<lparr>noData := noData s + 1\<rparr>))
               else
                 (case analysis of
                    None \<Rightarrow> (Fulfilled, finally_block j (s\<lparr>noData := noData s + 1\<rparr>))
                  | Some tokenData \<Rightarrow>
                      (case analyzeOnChain args txs tokenData of
                         Inl err \<Rightarrow> (Fulfilled, catch_block j err s)
                       | Inr onChainMetrics \<Rightarrow>
                           let score = calculateTrendingScore onChainMetrics;
                               s1 = (if updated s < 5 \<or> updated s mod 100 = 0
                                     then s\<lparr>trace := trace s @ [LoggedSuccess j]\<rparr> else s);
                               payload = cached_record token score now onChainMetrics
                           in (AwaitSet (address token) (JSON_stringify args payload),
                               s1\<lparr>trace := trace s1 @ [Called j (ClientSet (address token) payload)]\<rparr>)))))"

text \<open>
  After \<open>client.set\<close> (line 137).  The write takes effect when \<open>client.set\<close> resolves;
  a \<open>client.set\<close> that rejects has written nothing.
\<close>

definition after_set ::
  "nat \<Rightarrow> string \<Rightarrow> string \<Rightarrow> string + unit \<Rightarrow> 'tx state
     \<Rightarrow> 'tx continuation \<times> 'tx state" where
  "after_set j key val r s =
     (case r of
        Inl err \<Rightarrow> (Fulfilled, catch_block j err s)
      | Inr u \<Rightarrow>
          (Fulfilled, finally_block j (s\<lparr>cache := (cache s)(key \<mapsto> val), updated := updated s + 1\<rparr>)))"

subsection \<open>The driver loop\<close>

text \<open>
  The loop variable and the concurrency are reals, and the increment of the loop is exact:
  so it is in doubles for an integer concurrency, which every caller in the file passes
  unless the request body of \<open>POST /update-all-scores\<close> names another number.
\<close>

text \<open>
  \<open>Array.prototype.slice\<close>: an argument is truncated towards zero, a negative one counts
  from the end, and both are clamped to the length.
\<close>

definition ToIntegerOrInfinity :: "real \<Rightarrow> int" where
  "ToIntegerOrInfinity x = (if x < 0 then \<lceil>x\<rceil> else \<lfloor>x\<rfloor>)"

definition relative_index :: "nat \<Rightarrow> real \<Rightarrow> nat" where
  "relative_index len x =
     (let r = ToIntegerOrInfinity x
      in if r < 0 then nat (max (int len + r) 0) else min (nat r) len)"

definition slice :: "'a list \<Rightarrow> real \<Rightarrow> real \<Rightarrow> 'a list" where
  "slice xs lo hi =
     (let k = relative_index (length xs) lo; final = relative_index (length xs) hi
      in take (final - k) (drop k xs))"

text \<open>
  One iteration of the loop (lines 71 to 74) maps the async function over the batch: every
  task starts and runs up to its first \<open>await\<close>, the call of \<open>client.get\<close>.
\<close>

definition launch :: "('tx, 'meta) invocation \<Rightarrow> 'tx state \<Rightarrow> 'tx state" where
  "launch args s =
     (let k = relative_index (length (tokens args)) (i s);
          batch = slice (tokens args) (i s) (i s + concurrency args);
          numbered = zip [k ..< k + length batch] batch
      in s\<lparr>tasks := map (\<lambda>(j, token). (j, token, AwaitGet)) numbered,
            trace := trace s @
              concat (map (\<lambda>(j, token). [Started j, Called j (ClientGet (address token))]) numbered),
            control := AwaitAll\<rparr>)"

definition settled :: "(nat \<times> TokenAddress \<times> 'tx continuation) \<Rightarrow> bool" where
  "settled t = (case t of (j, token, k) \<Rightarrow> k = Fulfilled)"

text \<open>
  After \<open>Promise.all\<close> has resolved (lines 148 to 153): the progress line, and the
  increment of the loop.  No task rejects, since its whole body is inside \<open>try\<close>, so
  \<open>Promise.all\<close> resolves when every task of the batch has returned.
\<close>

definition join :: "('tx, 'meta) invocation \<Rightarrow> 'tx state \<Rightarrow> 'tx state" where
  "join args s =
     s\<lparr>trace := trace s @ [Progress (processed s) (updated s) (skipped s) (noData s) (failed s)],
       i := i s + concurrency args,
       control := LoopHead\<rparr>"

definition return_result :: "'tx state \<Rightarrow> 'tx state" where
  "return_result s =
     s\<lparr>control := Returned \<lparr> result_updated = updated s, result_skipped = skipped s,
                              result_noData = noData s, result_failed = failed s \<rparr>\<rparr>"

subsection \<open>Runs\<close>

text \<open>
  What happens next is decided outside the function: which pending promise settles, and
  how.  An occurrence names it.  \<open>Tick\<close> lets the driver loop take its next step (the
  loop test with the launch of a batch or the return, or the continuation after
  \<open>Promise.all\<close>, which needs every task of the batch to have settled).  The other
  occurrences settle the promise that task \<open>n\<close> of the batch awaits: \<open>client.get\<close>
  resolves to what the cache holds, unless it rejects; the collaborators resolve to any
  value or reject; \<open>client.set\<close> resolves or rejects.  \<open>step\<close> is \<open>None\<close> when the
  occurrence is not possible in the state.  The tasks of a batch interleave in any order:
  a run is any list of occurrences.
\<close>

datatype ('tx, 'meta) occurrence =
    Tick
  | GetSettles nat "string option"
  | TransactionsSettle nat "string + 'tx list option"
  | MetadataSettles nat "string + 'meta option" real
  | SetSettles nat "string option"

definition resume ::
  "'tx state \<Rightarrow> nat \<Rightarrow> ('tx continuation \<times> 'tx state) \<Rightarrow> 'tx state" where
  "resume s n r = (case r of (k, s') \<Rightarrow>
      (case tasks s ! n of (j, token, old) \<Rightarrow> s'\<lparr>tasks := (tasks s)[n := (j, token, k)]\<rparr>))"

fun step :: "('tx, 'meta) invocation \<Rightarrow> 'tx state \<Rightarrow> ('tx, 'meta) occurrence \<Rightarrow> 'tx state option" where
  "step args s Tick =
     (case control s of
        LoopHead \<Rightarrow>
          if i s < real (length (tokens args)) then Some (launch args s) else Some (return_result s)
      | AwaitAll \<Rightarrow> if list_all settled (tasks s) then Some (join args s) else None
      | Returned r \<Rightarrow> None)"
| "step args s (GetSettles n failure) =
     (if control s = AwaitAll \<and> n < length (tasks s) then
        (case tasks s ! n of
           (j, token, AwaitGet) \<Rightarrow>
             Some (resume s n (after_get (forceUpdate args) j token
               (case failure of Some err \<Rightarrow> Inl err | None \<Rightarrow> Inr (cache s (address token))) s))
         | (j, token, other) \<Rightarrow> None)
      else None)"
| "step args s (TransactionsSettle n r) =
     (if control s = AwaitAll \<and> n < length (tasks s) then
        (case tasks s ! n of
           (j, token, AwaitTransactions) \<Rightarrow> Some (resume s n (after_transactions j token r s))
         | (j, token, other) \<Rightarrow> None)
      else None)"
| "step args s (MetadataSettles n r now) =
     (if control s = AwaitAll \<and> n < length (tasks s) then
        (case tasks s ! n of
           (j, token, AwaitMetadata transactions) \<Rightarrow>
             Some (resume s n (after_metadata args j token transactions r now s))
         | (j, token, other) \<Rightarrow> None)
      else None)"
| "step args s (SetSettles n failure) =
     (if control s = AwaitAll \<and> n < length (tasks s) then
        (case tasks s ! n of
           (j, token, AwaitSet key val) \<Rightarrow>
             Some (resume s n (after_set j key val
               (case failure of Some err \<Rightarrow> Inl err | None \<Rightarrow> Inr ()) s))
         | (j, token, other) \<Rightarrow> None)
      else None)"

fun run :: "('tx, 'meta) invocation \<Rightarrow> 'tx state \<Rightarrow> ('tx, 'meta) occurrence list \<Rightarrow> 'tx state option" where
  "run args s [] = Some s"
| "run args s (e # es) = (case step args s e of None \<Rightarrow> None | Some s' \<Rightarrow> run args s' es)"

text \<open>The state at the entry of the function, with the cache as it is found.\<close>

definition initial :: "(string \<rightharpoonup> string) \<Rightarrow> 'tx state" where
  "initial c = \<lparr> processed = 0, updated = 0, skipped = 0, failed = 0, noData = 0,
      cache = c, trace = [], i = 0, tasks = [], control = LoopHead \<rparr>"

text \<open>The occurrences in which the promise that task \<open>n\<close> awaits rejects with \<open>err\<close>.\<close>

fun rejection :: "('tx, 'meta) occurrence \<Rightarrow> (nat \<times> string) option" where
  "rejection (GetSettles n (Some err)) = Some (n, err)"
| "rejection (TransactionsSettle n (Inl err)) = Some (n, err)"
| "rejection (MetadataSettles n (Inl err) now) = Some (n, err)"
| "rejection (SetSettles n (Some err)) = Some (n, err)"
| "rejection e = None"

text \<open>The task whose promise an occurrence settles.\<close>

fun task_of :: "('tx, 'meta) occurrence \<Rightarrow> nat option" where
  "task_of Tick = None"
| "task_of (GetSettles n failure) = Some n"
| "task_of (TransactionsSettle n r) = Some n"
| "task_of (MetadataSettles n r now) = Some n"
| "task_of (SetSettles n failure) = Some n"

section \<open>The HTTP routes\<close>

text \<open>
  The handlers of lines 321 to 461.  A numeric field of a request body is absent
  (\<open>None\<close>) or a JSON number; other JSON values are outside the model.  \<open>x || d\<close>
  yields \<open>d\<close> when \<open>x\<close> is falsy: undefined or zero.  A reply is the status, the
  properties of the JSON body, and the call the route makes in the background.
\<close>

definition falsy :: "real option \<Rightarrow> bool" where
  "falsy x = (case x of None \<Rightarrow> True | Some v \<Rightarrow> v = 0)"

definition or_default :: "real option \<Rightarrow> real \<Rightarrow> real" where
  "or_default x d = (if falsy x then d else the x)"

datatype json = JNum real | JStr string

text \<open>What a route calls without awaiting it, after it has responded.\<close>

datatype job =
    AnalyzeAndStoreTokens "TokenAddress list" bool real
  | UpdateAllTokenScores real
  | AddNewTokens real real

record reply =
  status :: nat
  body :: "(string \<times> json) list"
  background :: "job option"

definition background_note :: "string \<times> json" where
  "background_note = (''note'', JStr ''Processing in background. Check server logs for progress.'')"

definition failure_reply :: "string \<Rightarrow> reply" where
  "failure_reply msg = \<lparr> status = 500, body = [(''error'', JStr msg)], background = None \<rparr>"

text \<open>
  \<open>POST /dbinit\<close> and \<open>POST /refresh-tokens\<close>.  The discovery
  \<open>fetchTokenAddressesMultichain\<close> is a collaborator: it yields the token list or
  throws.
\<close>

definition dbinit :: "(real \<Rightarrow> string + TokenAddress list) \<Rightarrow> real option \<Rightarrow> real option \<Rightarrow> reply" where
  "dbinit fetchTokenAddressesMultichain body_maxTokens body_days =
     (let maxTokens = or_default body_maxTokens 5000;
          days = or_default body_days 30
      in case fetchTokenAddressesMultichain days of
           Inl err \<Rightarrow> failure_reply ''Failed to initialize database''
         | Inr allTokens \<Rightarrow>
             let selected = slice allTokens 0 maxTokens
             in \<lparr> status = 200,
                  body = [(''message'', JStr ''Database initialization started''),
                          (''totalTokens'', JNum (real (length allTokens))),
                          (''processing'', JNum (real (length selected))),
                          (''days'', JNum days),
                          background_note],
                  background = Some (AnalyzeAndStoreTokens selected False 20) \<rparr>)"

definition refresh_tokens :: "(real \<Rightarrow> string + TokenAddress list) \<Rightarrow> real option \<Rightarrow> real option \<Rightarrow> reply" where
  "refresh_tokens fetchTokenAddressesMultichain body_days body_maxTokens =
     (let days = or_default body_days 2;
          maxTokens = or_default body_maxTokens 1000
      in case fetchTokenAddressesMultichain days of
           Inl err \<Rightarrow> failure_reply ''Failed to refresh tokens''
         | Inr allTokens \<Rightarrow>
             let selected = slice allTokens 0 maxTokens
             in \<lparr> status = 200,
                  body = [(''message'', JStr ''Token refresh started''),
                          (''totalTokens'', JNum (real (length allTokens))),
                          (''processing'', JNum (real (length selected))),
                          (''days'', JNum days),
                          background_note],
                  background = Some (AnalyzeAndStoreTokens selected True 15) \<rparr>)"

text \<open>The decimal text of an integer, for the template literal of the estimated time.\<close>

fun decimal :: "nat \<Rightarrow> string" where
  "decimal n = (if n < 10 then [char_of (48 + n)] else decimal (n div 10) @ [char_of (48 + n mod 10)])"

definition decimal_int :: "int \<Rightarrow> string" where
  "decimal_int k = (if k < 0 then CHR ''-'' # decimal (nat (- k)) else decimal (nat k))"

text \<open>\<open>POST /update-all-scores\<close>; \<open>client.keys\<close> yields the keys or throws.\<close>

definition update_all_scores :: "string + string list \<Rightarrow> real option \<Rightarrow> reply" where
  "update_all_scores client_keys body_concurrency =
     (let concurrency = or_default body_concurrency 10
      in case client_keys of
           Inl err \<Rightarrow> failure_reply ''Failed to update all scores''
         | Inr keys \<Rightarrow>
             if length keys = 0
             then \<lparr> status = 200,
                    body = [(''message'', JStr ''No tokens in database. Use /dbinit first.''),
                            (''tokensUpdated'', JNum 0)],
                    background = None \<rparr>
             else \<lparr> status = 200,
                    body = [(''message'', JStr ''Full database update started''),
                            (''totalTokens'', JNum (real (length keys))),
                            (''estimatedTime'',
                               JStr (decimal_int \<lceil>real (length keys) / concurrency / 60\<rceil> @ '' minutes'')),
                            background_note],
                    background = Some (UpdateAllTokenScores concurrency) \<rparr>)"

text \<open>\<open>POST /add-new-tokens\<close> responds before it calls anything.\<close>

definition add_new_tokens :: "real option \<Rightarrow> real option \<Rightarrow> reply" where
  "add_new_tokens body_days body_maxNewTokens =
     (let days = or_default body_days 1;
          maxNewTokens = or_default body_maxNewTokens 500
      in \<lparr> status = 200,
           body = [(''message'', JStr ''Checking for new tokens...''),
                   (''days'', JNum days),
                   (''maxNewTokens'', JNum maxNewTokens),
                   background_note],
           background = Some (AddNewTokens days maxNewTokens) \<rparr>)"

subsection \<open>\<open>GET /trending-tokens\<close>\<close>

text \<open>
  \<open>parseInt\<close> with no radix, on the characters of ASCII: leading white space, a sign, an
  optional \<open>0x\<close> prefix, then the longest run of digits of the radix; \<open>None\<close> is NaN.
\<close>

definition white_space :: "char \<Rightarrow> bool" where
  "white_space c = (of_char c \<in> {9, 10, 11, 12, 13, 32 :: nat})"

definition digit_of :: "char \<Rightarrow> nat option" where
  "digit_of c =
     (let n = of_char c :: nat
      in if 48 \<le> n \<and> n \<le> 57 then Some (n - 48)
         else if 97 \<le> n \<and> n \<le> 122 then Some (n - 87)
         else if 65 \<le> n \<and> n \<le> 90 then Some (n - 55)
         else None)"

definition digit_in :: "nat \<Rightarrow> char \<Rightarrow> bool" where
  "digit_in radix c = (case digit_of c of None \<Rightarrow> False | Some d \<Rightarrow> d < radix)"

definition parseInt :: "string \<Rightarrow> int option" where
  "parseInt str =
     (let trimmed = dropWhile white_space str;
          negative = (take 1 trimmed = ''-'');
          unsigned = (if take 1 trimmed = ''-'' \<or> take 1 trimmed = ''+'' then drop 1 trimmed else trimmed);
          hex = (take 2 unsigned = ''0x'' \<or> take 2 unsigned = ''0X'');
          radix = (if hex then 16 else 10);
          digits = takeWhile (digit_in radix) (if hex then drop 2 unsigned else unsigned);
          magnitude = foldl (\<lambda>acc c. acc * radix + the (digit_of c)) 0 digits
      in if digits = [] then None
         else Some (if negative then - int magnitude else int magnitude))"

text \<open>\<open>parseInt(q) || 100\<close>, where an absent parameter is the text \<open>undefined\<close>.\<close>

definition limit_of :: "string option \<Rightarrow> real" where
  "limit_of q =
     (case parseInt (case q of None \<Rightarrow> ''undefined'' | Some str \<Rightarrow> str) of
        None \<Rightarrow> 100
      | Some k \<Rightarrow> if k = 0 then 100 else real_of_int k)"

text \<open>
  The fields of a parsed cache entry that the route reads; \<open>JSON.parse\<close> is a parameter,
  and yields \<open>None\<close> for the JSON value \<open>null\<close>.
\<close>

record parsed_token =
  parsed_chainName :: "string option"
  parsed_trendingscore :: "real option"
  parsed_text :: string

fun load_all ::
  "(string \<Rightarrow> string + string option) \<Rightarrow> (string \<Rightarrow> string + parsed_token option) \<Rightarrow> string list
     \<Rightarrow> string + parsed_token option list" where
  "load_all client_get JSON_parse [] = Inr []"
| "load_all client_get JSON_parse (key # keys) =
     (case client_get key of
        Inl err \<Rightarrow> Inl err
      | Inr existing \<Rightarrow>
          (case (if truthy_string existing then JSON_parse (the existing) else Inr None) of
             Inl err \<Rightarrow> Inl err
           | Inr t \<Rightarrow>
               (case load_all client_get JSON_parse keys of
                  Inl err \<Rightarrow> Inl err
                | Inr ts \<Rightarrow> Inr (t # ts))))"

definition toLowerCase :: "string \<Rightarrow> string" where
  "toLowerCase str =
     map (\<lambda>c. if 65 \<le> (of_char c :: nat) \<and> (of_char c :: nat) \<le> 90
              then char_of ((of_char c :: nat) + 32) else c) str"

record trending =
  total :: nat
  returned :: nat
  chain :: string
  listed :: "parsed_token list"

definition trending_tokens ::
  "string + string list \<Rightarrow> (string \<Rightarrow> string + string option)
     \<Rightarrow> (string \<Rightarrow> string + parsed_token option) \<Rightarrow> string option \<Rightarrow> string option
     \<Rightarrow> nat \<times> (string + trending)" where
  "trending_tokens client_keys client_get JSON_parse query_limit query_chain =
     (let limit = limit_of query_limit
      in case client_keys of
           Inl err \<Rightarrow> (500, Inl ''Failed to fetch trending tokens'')
         | Inr keys \<Rightarrow>
            (case load_all client_get JSON_parse keys of
               Inl err \<Rightarrow> (500, Inl ''Failed to fetch trending tokens'')
             | Inr loaded \<Rightarrow>
                 let present = map the (filter (\<lambda>t. t \<noteq> None) loaded);
                     filtered = (if truthy_string query_chain
                                 then filter (\<lambda>t. map_option toLowerCase (parsed_chainName t)
                                                   = Some (toLowerCase (the query_chain))) present
                                 else present);
                     sorted = slice (sort_key (\<lambda>t. - or_default (parsed_trendingscore t) 0) filtered)
                                0 limit
                 in (200, Inr \<lparr> total = length filtered, returned = length sorted,
                                 chain = (if truthy_string query_chain then the query_chain else ''all''),
                                 listed = sorted \<rparr>)))"

section \<open>Invariants of a run\<close>

text \<open>The counter equation.\<close>

definition counted :: "'tx state \<Rightarrow> bool" where
  "counted s = (processed s = updated s + skipped s + noData s + failed s)"

text \<open>The cache writes that a trace holds.\<close>

fun written :: "event \<Rightarrow> (string \<times> CachedTokenRecord) option" where
  "written (Called j (ClientSet key payload)) = Some (key, payload)"
| "written e = None"

definition sound_write :: "event \<Rightarrow> bool" where
  "sound_write e = (case written e of None \<Rightarrow> True
     | Some (key, payload) \<Rightarrow> key = cached_address payload \<and>
         0 \<le> trendingscore payload \<and> trendingscore payload \<le> 100)"

text \<open>
  What a block of the pipeline of token \<open>j\<close> does to the state: it leaves the loop alone,
  it extends the trace by events that start no task, it counts the token as processed
  exactly when the task returns, and a pending write is a write of the record of this token
  under its address.
\<close>

definition task_progress ::
  "('tx, 'meta) invocation \<Rightarrow> nat \<Rightarrow> TokenAddress \<Rightarrow> 'tx state \<Rightarrow> 'tx continuation \<times> 'tx state \<Rightarrow> bool" where
  "task_progress args j token s r = (case r of (k, s1) \<Rightarrow>
     i s1 = i s \<and> tasks s1 = tasks s \<and> control s1 = control s \<and>
     (\<exists>es. trace s1 = trace s @ es \<and> (\<forall>e\<in>set es. \<forall>m. e \<noteq> Started m) \<and>
        (\<forall>e\<in>set es. sound_write e) \<and> (k = Fulfilled \<longrightarrow> Settled j \<in> set es)) \<and>
     processed s1 = (if k = Fulfilled then processed s + 1 else processed s) \<and>
     (counted s \<longrightarrow> counted s1) \<and>
     (\<forall>key val. k = AwaitSet key val \<longrightarrow> key = address token \<and>
        (\<exists>score now m. val = JSON_stringify args (cached_record token score now m))))"

definition pending_writes_keyed :: "('tx, 'meta) invocation \<Rightarrow> 'tx state \<Rightarrow> bool" where
  "pending_writes_keyed args s =
     (\<forall>t\<in>set (tasks s). \<forall>key val. snd (snd t) = AwaitSet key val \<longrightarrow>
        key = address (fst (snd t)) \<and>
        (\<exists>score now m. val = JSON_stringify args (cached_record (fst (snd t)) score now m)))"

definition sound_writes :: "'tx state \<Rightarrow> bool" where
  "sound_writes s = (\<forall>e\<in>set (trace s). sound_write e)"

text \<open>The positions of the tokens of the batch that the loop variable selects.\<close>

definition batch_range :: "('tx, 'meta) invocation \<Rightarrow> 'tx state \<Rightarrow> nat \<times> nat" where
  "batch_range args s =
     (relative_index (length (tokens args)) (i s),
      relative_index (length (tokens args)) (i s + concurrency args))"

definition counters :: "'tx state \<Rightarrow> result" where
  "counters s = \<lparr> result_updated = updated s, result_skipped = skipped s,
                  result_noData = noData s, result_failed = failed s \<rparr>"

text \<open>
  The shape of a state of a run with a positive concurrency: at the head of the loop every
  token before the loop variable is processed and settled; in a batch, the tasks are the
  tokens of the slice in order, and the tokens processed are those before the batch and
  the settled ones of the batch; at the return, every token is processed.
\<close>

definition well_formed :: "('tx, 'meta) invocation \<Rightarrow> 'tx state \<Rightarrow> bool" where
  "well_formed args s = (case batch_range args s of (a, b) \<Rightarrow>
     0 \<le> i s \<and>
     (case control s of
        LoopHead \<Rightarrow> processed s = a \<and> (\<forall>j<a. Settled j \<in> set (trace s))
      | AwaitAll \<Rightarrow>
          i s < real (length (tokens args)) \<and>
          map (\<lambda>t. (fst t, fst (snd t))) (tasks s) = map (\<lambda>j. (j, tokens args ! j)) [a ..< b] \<and>
          processed s = a + length (filter settled (tasks s)) \<and>
          (\<forall>j<a. Settled j \<in> set (trace s)) \<and>
          (\<forall>t\<in>set (tasks s). settled t \<longrightarrow> Settled (fst t) \<in> set (trace s))
      | Returned r \<Rightarrow> processed s = length (tokens args) \<and> r = counters s))"

text \<open>
  The barrier, on a trace: where a task starts, every token of an earlier chunk has
  settled before.
\<close>

definition barrier :: "nat \<Rightarrow> event list \<Rightarrow> bool" where
  "barrier n tr = (\<forall>p j j'. p < length tr \<and> tr ! p = Started j \<and> j' div n < j div n
      \<longrightarrow> Settled j' \<in> set (take p tr))"

definition chunked :: "nat \<Rightarrow> ('tx, 'meta) invocation \<Rightarrow> 'tx state \<Rightarrow> bool" where
  "chunked n args s = (well_formed args s \<and> (\<exists>m. i s = real (m * n)) \<and> barrier n (trace s))"

section \<open>Example inputs\<close>

text \<open>
  Tokens, calls and runs on which the theorems below are instantiated.  The example
  accumulator answers the metrics of the specification's example; the example serialiser
  writes the address and the chain name.
\<close>

definition token_on :: "string \<Rightarrow> real \<Rightarrow> string \<Rightarrow> TokenAddress" where
  "token_on a c name = \<lparr> address = a, chainId = c, chainName = name, firstSeenBlock = 100,
     firstSeenTimestamp = 1700000000, ageInHours = 3, transactionHash = ''0xfeed'' \<rparr>"

definition example_call :: "TokenAddress list \<Rightarrow> real \<Rightarrow> (nat, unit) invocation" where
  "example_call ts c = \<lparr> tokens = ts, forceUpdate = False, concurrency = c,
     analyzeOnChain = (\<lambda>txs meta. Inr example_metrics),
     JSON_stringify = (\<lambda>r. cached_address r @ ''@'' @ cached_chainName r) \<rparr>"

definition four_tokens :: "(nat, unit) invocation" where
  "four_tokens = example_call [token_on ''0xa'' 1 ''ethereum'', token_on ''0xb'' 1 ''ethereum'',
     token_on ''0xc'' 1 ''ethereum'', token_on ''0xd'' 1 ''ethereum''] 2"

definition two_chains :: "(nat, unit) invocation" where
  "two_chains = example_call [token_on ''0xabc'' 1 ''ethereum'', token_on ''0xabc'' 137 ''polygon''] 2"

definition one_token :: "(nat, unit) invocation" where
  "one_token = example_call [token_on ''0xabc'' 1 ''ethereum''] 10"

definition first_chunk_settles :: "(nat, unit) occurrence list" where
  "first_chunk_settles = [Tick, GetSettles 1 None, GetSettles 0 None,
     TransactionsSettle 1 (Inr (Some [])), MetadataSettles 1 (Inr None) 0,
     TransactionsSettle 0 (Inl ''timeout''), Tick, Tick]"

definition second_chunk_settles :: "(nat, unit) occurrence list" where
  "second_chunk_settles = [GetSettles 0 (Some ''connection lost''), GetSettles 1 None,
     TransactionsSettle 1 (Inr (Some [7, 8])), MetadataSettles 1 (Inr (Some ())) 1700000500,
     SetSettles 1 None, Tick, Tick]"

definition both_written :: "(nat, unit) occurrence list" where
  "both_written = [Tick, GetSettles 0 None, GetSettles 1 None,
     TransactionsSettle 0 (Inr (Some [1])), TransactionsSettle 1 (Inr (Some [2])),
     MetadataSettles 0 (Inr (Some ())) 1700000100, MetadataSettles 1 (Inr (Some ())) 1700000200,
     SetSettles 0 None]"

definition empty_entry :: "string \<rightharpoonup> string" where
  "empty_entry = [''0xabc'' \<mapsto> []]"

definition scored_entry :: "string \<rightharpoonup> string" where
  "scored_entry = [''0xabc'' \<mapsto> ''0xabc@ethereum'']"

definition empty_entry_run :: "nat state option" where
  "empty_entry_run = run one_token (initial empty_entry) [Tick, GetSettles 0 None]"

definition get_fails_run :: "nat state option" where
  "get_fails_run = run one_token (initial scored_entry) [Tick, GetSettles 0 (Some ''connection lost'')]"

definition metadata_fails_run :: "nat state option" where
  "metadata_fails_run = run one_token (initial Map.empty)
     [Tick, GetSettles 0 None, TransactionsSettle 0 (Inr (Some [])),
      MetadataSettles 0 (Inl ''metadata service unreachable'') 0]"

definition failing_discovery :: "real \<Rightarrow> string + TokenAddress list" where
  "failing_discovery days = Inl ''scan failed''"

definition two_found :: "real \<Rightarrow> string + TokenAddress list" where
  "two_found days = Inr [token_on ''0xa'' 1 ''ethereum'', token_on ''0xb'' 8453 ''base'']"

definition example_get :: "string \<Rightarrow> string + string option" where
  "example_get key = Inr (Some key)"

definition example_parse :: "string \<Rightarrow> string + parsed_token option" where
  "example_parse text = Inr (Some \<lparr> parsed_chainName = Some ''Base'',
     parsed_trendingscore = Some 47, parsed_text = text \<rparr>)"

lemmas run_defs = initial_def launch_def slice_def relative_index_def ToIntegerOrInfinity_def
  resume_def after_get_def after_transactions_def after_metadata_def after_set_def
  truthy_string_def catch_block_def finally_block_def join_def return_result_def settled_def
  Let_def

section \<open>Properties of the trending score\<close>


text \<open>
  Rounding commutes with the clamp to \<open>[0, 100]\<close>: rounding is monotone and leaves the two
  bounds where they are.
\<close>

lemma round_clamp: "Math_round (clamp x 0 100) = max 0 (min 100 (Math_round x))"
proof -
  have half: "\<lfloor>(1::real) / 2\<rfloor> = 0" and top: "\<lfloor>(100::real) + 1 / 2\<rfloor> = 100"
    by linarith+
  consider "x < 0" | "0 \<le> x \<and> x \<le> 100" | "100 < x" by linarith
  then show ?thesis
  proof cases
    case 1
    then have c: "clamp x 0 100 = 0" by (simp add: clamp_def)
    from 1 have "\<lfloor>x + 1 / 2\<rfloor> \<le> 0" by linarith
    then have "Math_round x \<le> 0" by (simp add: Math_round_def)
    then have "max 0 (min 100 (Math_round x)) = 0" by simp
    moreover have "Math_round 0 = 0" using half by (simp add: Math_round_def)
    ultimately show ?thesis using c by simp
  next
    case 2
    then have c: "clamp x 0 100 = x" by (simp add: clamp_def)
    from 2 have "0 \<le> \<lfloor>x + 1 / 2\<rfloor>" "\<lfloor>x + 1 / 2\<rfloor> \<le> 100" by linarith+
    then have "0 \<le> Math_round x" "Math_round x \<le> 100"
      unfolding Math_round_def by linarith+
    then have "max 0 (min 100 (Math_round x)) = Math_round x" by simp
    then show ?thesis using c by simp
  next
    case 3
    then have c: "clamp x 0 100 = 100" by (simp add: clamp_def)
    from 3 have "100 \<le> \<lfloor>x + 1 / 2\<rfloor>" by linarith
    then have "100 \<le> Math_round x" unfolding Math_round_def by linarith
    then have "max 0 (min 100 (Math_round x)) = 100" by simp
    moreover have "Math_round 100 = 100" using top by (simp add: Math_round_def)
    ultimately show ?thesis using c by simp
  qed
qed

text \<open>The rounding to a double, on numbers whose doubles are known.\<close>

lemma bit_length_numeral:
  "bit_length (numeral k) = Suc (bit_length (numeral k div 2))" "bit_length 0 = 0"
  "bit_length 1 = 1" "bit_length (Suc 0) = 1"
  by (simp_all add: bit_length.simps)

lemmas double_defs = to_double_def binary_exponent_def pow2_def round_half_even_def
  bit_length_numeral double_add_def double_mul_def double_div_def Let_def

lemma double_literals:
  "to_double 0.25 = 1 / 4"
  "to_double 0.2 = 3602879701896397 / 2 ^ 54"
  "to_double 0.15 = 5404319552844595 / 2 ^ 55"
  "to_double 0.1 = 3602879701896397 / 2 ^ 55"
  by (simp_all add: double_defs)

lemma double_of_integer: "to_double 36 = 36" "to_double 100 = 100" "to_double (- 100) = - 100"
  "to_double 9007199254740993 = 9007199254740992"
  "to_double 9007199254740995 = 9007199254740996"
  by (simp_all add: double_defs)

lemma double_subnormal: "to_double (3 / 2 ^ 1075) = 1 / 2 ^ 1073"
  by (simp add: double_defs)

lemma weighted_sum_of_example:
  "weighted_sum_in_doubles 80 50 60 30 2 10 = 3321404725185741 / 2 ^ 46"
  "weighted_sum 80 50 60 30 2 10 = 472 / 10"
  by (simp_all add: weighted_sum_in_doubles_def weighted_sum_def double_defs)

lemma weighted_sum_of_distribution:
  "weighted_sum_in_doubles 0 0 36 0 1 0 = 6192449487634431 / 2 ^ 50"
  "weighted_sum 0 0 36 0 1 0 = 55 / 10"
  by (simp_all add: weighted_sum_in_doubles_def weighted_sum_def double_defs)

lemma score_in_doubles:
  "calculateTrendingScore m =
     spec_score_in_doubles (or_undefined (activityScore m) 0) (or_undefined (liquidityHealthScore m) 0)
       (or_undefined (distributionScore m) 0) (or_undefined (momentumScore m) 0)
       (or_undefined (buyVsSellRatio m) 1) (or_undefined (priceChange24h m) 0)"
  unfolding spec_score_in_doubles_def round_clamp calculateTrendingScore_def Let_def
    weighted_sum_in_doubles_def
  by (simp add: max.commute)

lemma score_in_range:
  "0 \<le> calculateTrendingScore m" "calculateTrendingScore m \<le> 100"
  by (simp_all add: calculateTrendingScore_def Let_def)

lemma score_example: "calculateTrendingScore example_metrics = 47" "spec_score 80 50 60 30 2 10 = 47"
proof -
  have "\<lfloor>(3321404725185741::real) / 2 ^ 46 + 1 / 2\<rfloor> = 47" by (simp add: floor_eq_iff)
  then show "calculateTrendingScore example_metrics = 47"
    unfolding score_in_doubles
    by (simp add: example_metrics_def or_undefined_def spec_score_in_doubles_def
        weighted_sum_of_example clamp_def Math_round_def)
  have "\<lfloor>(472::real) / 10 + 1 / 2\<rfloor> = 47" by (simp add: floor_eq_iff)
  then show "spec_score 80 50 60 30 2 10 = 47"
    by (simp add: spec_score_def weighted_sum_of_example clamp_def Math_round_def)
qed

lemma score_when_sums_round_alike:
  assumes "Math_round (weighted_sum_in_doubles a l d mo b p) = Math_round (weighted_sum a l d mo b p)"
  shows "spec_score_in_doubles a l d mo b p = spec_score a l d mo b p"
  using assms by (simp add: spec_score_in_doubles_def spec_score_def round_clamp)

text \<open>
  Claim C1, as amended.  For every metrics object, \<open>calculateTrendingScore\<close> returns the
  rounded clamp of the weighted sum of the formula, where the sum is evaluated in the
  arithmetic of doubles: every product, quotient and sum rounded to the nearest double, in
  the order written, on the properties of the object (with the default of a property that
  is undefined).  The source clamps the rounded sum and the specification rounds the
  clamped sum: the two orders give the same number on every input.  Whenever the sum in
  doubles and the sum in exact arithmetic round to the same integer, the score is the value
  of the formula in exact arithmetic; so it is on the example of the specification (80,
  50, 60, 30, ratio 2, price change 10), where the score is 47.
\<close>

theorem C1_score_is_formula_in_doubles:
  "calculateTrendingScore m =
     spec_score_in_doubles (or_undefined (activityScore m) 0) (or_undefined (liquidityHealthScore m) 0)
       (or_undefined (distributionScore m) 0) (or_undefined (momentumScore m) 0)
       (or_undefined (buyVsSellRatio m) 1) (or_undefined (priceChange24h m) 0) \<and>
   (Math_round (weighted_sum_in_doubles
        (or_undefined (activityScore m) 0) (or_undefined (liquidityHealthScore m) 0)
        (or_undefined (distributionScore m) 0) (or_undefined (momentumScore m) 0)
        (or_undefined (buyVsSellRatio m) 1) (or_undefined (priceChange24h m) 0)) =
    Math_round (weighted_sum
        (or_undefined (activityScore m) 0) (or_undefined (liquidityHealthScore m) 0)
        (or_undefined (distributionScore m) 0) (or_undefined (momentumScore m) 0)
        (or_undefined (buyVsSellRatio m) 1) (or_undefined (priceChange24h m) 0)) \<longrightarrow>
    calculateTrendingScore m =
      spec_score (or_undefined (activityScore m) 0) (or_undefined (liquidityHealthScore m) 0)
        (or_undefined (distributionScore m) 0) (or_undefined (momentumScore m) 0)
        (or_undefined (buyVsSellRatio m) 1) (or_undefined (priceChange24h m) 0)) \<and>
   calculateTrendingScore example_metrics = 47 \<and> spec_score 80 50 60 30 2 10 = 47"
  using score_in_doubles [of m] score_when_sums_round_alike score_example by metis

theorem C1_witness:
  "Math_round (weighted_sum_in_doubles 80 50 60 30 2 10) = Math_round (weighted_sum 80 50 60 30 2 10) \<and>
   calculateTrendingScore example_metrics = spec_score 80 50 60 30 2 10"
proof -
  have "\<lfloor>(3321404725185741::real) / 2 ^ 46 + 1 / 2\<rfloor> = 47" "\<lfloor>(472::real) / 10 + 1 / 2\<rfloor> = 47"
    by (simp_all add: floor_eq_iff)
  then have h: "Math_round (weighted_sum_in_doubles 80 50 60 30 2 10) =
      Math_round (weighted_sum 80 50 60 30 2 10)"
    by (simp add: weighted_sum_of_example Math_round_def)
  from C1_score_is_formula_in_doubles [of example_metrics] h
  have "calculateTrendingScore example_metrics = spec_score 80 50 60 30 2 10"
    by (simp add: example_metrics_def or_undefined_def)
  then show ?thesis using h by simp
qed

text \<open>
  The claim as it is stated, with the formula in exact arithmetic, fails.  For the metrics
  object whose only property is \<open>distributionScore = 36\<close>, the product \<open>36 * 0.15\<close> is the
  double just below 5.4 and the sum with \<open>1 * 0.1\<close> the double just below 5.5: the function
  returns 5, where the exact sum is 5.5 and the formula gives 6.
\<close>

theorem C1_counterexample:
  "calculateTrendingScore distribution_only = 5 \<and>
   spec_score (or_undefined (activityScore distribution_only) 0)
     (or_undefined (liquidityHealthScore distribution_only) 0)
     (or_undefined (distributionScore distribution_only) 0)
     (or_undefined (momentumScore distribution_only) 0)
     (or_undefined (buyVsSellRatio distribution_only) 1)
     (or_undefined (priceChange24h distribution_only) 0) = 6"
proof -
  have "\<lfloor>(6192449487634431::real) / 2 ^ 50 + 1 / 2\<rfloor> = 5" "\<lfloor>(55::real) / 10 + 1 / 2\<rfloor> = 6"
    by (simp_all add: floor_eq_iff)
  then show ?thesis
    unfolding score_in_doubles
    by (simp add: distribution_only_def or_undefined_def spec_score_in_doubles_def spec_score_def
        weighted_sum_of_distribution clamp_def Math_round_def)
qed

section \<open>The blocks of the pipeline\<close>

lemmas block_defs = finally_block_def catch_block_def Let_def counted_def task_progress_def
  sound_write_def cached_record_def

lemma progress_after_get: "task_progress args j token s (after_get f j token r s)"
  by (auto simp: after_get_def block_defs split: sum.splits)

lemma progress_after_transactions: "task_progress args j token s (after_transactions j token r s)"
  by (auto simp: after_transactions_def block_defs split: sum.splits)

lemma progress_after_metadata:
  "task_progress args j token s (after_metadata args j token txs r now s)"
proof (cases r)
  case (Inl err)
  then show ?thesis by (auto simp: after_metadata_def block_defs)
next
  case (Inr analysis)
  show ?thesis
  proof (cases "\<exists>t m. txs = Some t \<and> t \<noteq> [] \<and> analysis = Some m")
    case False
    then show ?thesis using Inr
      by (auto simp: after_metadata_def block_defs split: option.splits)
  next
    case True
    then obtain t m where tm: "txs = Some t" "t \<noteq> []" "analysis = Some m" by blast
    show ?thesis
    proof (cases "analyzeOnChain args t m")
      case (Inl err)
      then show ?thesis using Inr tm by (auto simp: after_metadata_def block_defs)
    next
      case (Inr om)
      have "\<exists>score now' m'. JSON_stringify args (cached_record token (calculateTrendingScore om) now om)
          = JSON_stringify args (cached_record token score now' m')"
        by blast
      then show ?thesis using \<open>r = Inr analysis\<close> tm Inr score_in_range [of om]
        by (simp add: after_metadata_def finally_block_def catch_block_def Let_def counted_def
            task_progress_def sound_write_def) (simp add: cached_record_def)
    qed
  qed
qed

lemma progress_after_set: "task_progress args j token s (after_set j key val r s)"
  by (auto simp: after_set_def block_defs split: sum.splits)

text \<open>The steps of a run, with what a step of a task keeps.\<close>

lemma step_cases [consumes 1, case_names launch return join task]:
  assumes "step args s e = Some s'"
  obtains
    (launch) "e = Tick" "control s = LoopHead" "i s < real (length (tokens args))"
      "s' = launch args s"
  | (return) "e = Tick" "control s = LoopHead" "\<not> i s < real (length (tokens args))"
      "s' = return_result s"
  | (join) "e = Tick" "control s = AwaitAll" "list_all settled (tasks s)" "s' = join args s"
  | (task) n j token old k s1 where "control s = AwaitAll" "n < length (tasks s)"
      "tasks s ! n = (j, token, old)" "old \<noteq> Fulfilled" "task_progress args j token s (k, s1)"
      "s' = s1\<lparr>tasks := (tasks s)[n := (j, token, k)]\<rparr>"
proof (cases e)
  case Tick
  with assms show ?thesis
    by (cases "control s") (auto split: if_splits intro: launch return join)
next
  case (GetSettles n failure)
  with assms have c: "control s = AwaitAll" "n < length (tasks s)"
    by (auto split: if_splits)
  obtain j token old where t: "tasks s ! n = (j, token, old)" by (cases "tasks s ! n") auto
  with assms GetSettles c have o: "old = AwaitGet" by (cases old) auto
  obtain k s1 where r: "after_get (forceUpdate args) j token
      (case failure of Some err \<Rightarrow> Inl err | None \<Rightarrow> Inr (cache s (address token))) s = (k, s1)"
    by fastforce
  have "task_progress args j token s (k, s1)" using progress_after_get [of args j token s] r by metis
  moreover have "s' = s1\<lparr>tasks := (tasks s)[n := (j, token, k)]\<rparr>"
    using assms GetSettles c t o r by (simp add: resume_def)
  ultimately show ?thesis using task c t o by blast
next
  case (TransactionsSettle n r)
  with assms have c: "control s = AwaitAll" "n < length (tasks s)"
    by (auto split: if_splits)
  obtain j token old where t: "tasks s ! n = (j, token, old)" by (cases "tasks s ! n") auto
  with assms TransactionsSettle c have o: "old = AwaitTransactions" by (cases old) auto
  obtain k s1 where r: "after_transactions j token r s = (k, s1)"
    by fastforce
  have "task_progress args j token s (k, s1)"
    using progress_after_transactions [of args j token s] r by metis
  moreover have "s' = s1\<lparr>tasks := (tasks s)[n := (j, token, k)]\<rparr>"
    using assms TransactionsSettle c t o r by (simp add: resume_def)
  ultimately show ?thesis using task c t o by blast
next
  case (MetadataSettles n r now)
  with assms have c: "control s = AwaitAll" "n < length (tasks s)"
    by (auto split: if_splits)
  obtain j token old where t: "tasks s ! n = (j, token, old)" by (cases "tasks s ! n") auto
  with assms MetadataSettles c obtain txs where o: "old = AwaitMetadata txs" by (cases old) auto
  obtain k s1 where r: "after_metadata args j token txs r now s = (k, s1)"
    by fastforce
  have "task_progress args j token s (k, s1)"
    using progress_after_metadata [of args j token s] r by metis
  moreover have "s' = s1\<lparr>tasks := (tasks s)[n := (j, token, k)]\<rparr>"
    using assms MetadataSettles c t o r by (simp add: resume_def)
  ultimately show ?thesis using task c t o by blast
next
  case (SetSettles n failure)
  with assms have c: "control s = AwaitAll" "n < length (tasks s)"
    by (auto split: if_splits)
  obtain j token old where t: "tasks s ! n = (j, token, old)" by (cases "tasks s ! n") auto
  with assms SetSettles c obtain key val where o: "old = AwaitSet key val" by (cases old) auto
  obtain k s1 where r: "after_set j key val
      (case failure of Some err \<Rightarrow> Inl err | None \<Rightarrow> Inr ()) s = (k, s1)"
    by fastforce
  have "task_progress args j token s (k, s1)" using progress_after_set [of args j token s] r by metis
  moreover have "s' = s1\<lparr>tasks := (tasks s)[n := (j, token, k)]\<rparr>"
    using assms SetSettles c t o r by (simp add: resume_def)
  ultimately show ?thesis using task c t o by blast
qed

lemma run_invariant:
  assumes "run args s es = Some s'" "P s" "\<And>s e s'. P s \<Longrightarrow> step args s e = Some s' \<Longrightarrow> P s'"
  shows "P s'"
  using assms(1,2)
proof (induction es arbitrary: s)
  case Nil
  then show ?case by simp
next
  case (Cons e es)
  then show ?case using assms(3) by (auto split: option.splits)
qed

lemma run_append:
  "run args s (es @ es') = (case run args s es of None \<Rightarrow> None | Some s' \<Rightarrow> run args s' es')"
  by (induction es arbitrary: s) (auto split: option.splits)

lemma step_of_task:
  assumes "step args s e = Some s'" "task_of e = Some n"
  shows "control s = AwaitAll" "n < length (tasks s)"
  using assms by (cases e; simp split: if_splits)+

lemma settled_task_stays:
  assumes "tasks s ! n = (j, token, Fulfilled)" "task_of e = Some n"
  shows "step args s e = None"
  using assms by (cases e) simp_all

lemma failure_settles:
  "catch_block j err s =
     s\<lparr>failed := failed s + 1, processed := processed s + 1,
       trace := trace s @ (if failed s < 5 then [LoggedError j err] else []) @ [Settled j]\<rparr>"
  by (simp add: catch_block_def finally_block_def Let_def)

lemma caught:
  assumes "step args s e = Some s'" "tasks s ! n = (j, token, k)"
    and "rejection e = Some (n, err) \<or>
      (\<exists>txs meta now. e = MetadataSettles n (Inr (Some meta)) now \<and> k = AwaitMetadata (Some txs) \<and>
         txs \<noteq> [] \<and> analyzeOnChain args txs meta = Inl err)"
  shows "s' = (catch_block j err s)\<lparr>tasks := (tasks s)[n := (j, token, Fulfilled)]\<rparr>"
  using assms(3)
proof
  assume r: "rejection e = Some (n, err)"
  then have "task_of e = Some n" by (cases e rule: rejection.cases) simp_all
  then have c: "control s = AwaitAll" "n < length (tasks s)"
    using step_of_task [OF assms(1)] by simp_all
  show ?thesis
  proof (cases e rule: rejection.cases)
    case (1 n' err')
    then have "k = AwaitGet" using assms(1,2) c r by (cases k) simp_all
    then show ?thesis using 1 r assms(1,2) c by (simp add: resume_def after_get_def)
  next
    case (2 n' err')
    then have "k = AwaitTransactions" using assms(1,2) c r by (cases k) simp_all
    then show ?thesis using 2 r assms(1,2) c by (simp add: resume_def after_transactions_def)
  next
    case (3 n' err' now)
    then obtain txs where "k = AwaitMetadata txs" using assms(1,2) c r by (cases k) simp_all
    then show ?thesis using 3 r assms(1,2) c by (simp add: resume_def after_metadata_def)
  next
    case (4 n' err')
    then obtain key val where "k = AwaitSet key val" using assms(1,2) c r by (cases k) simp_all
    then show ?thesis using 4 r assms(1,2) c by (simp add: resume_def after_set_def)
  qed (use r in simp_all)
next
  assume "\<exists>txs meta now. e = MetadataSettles n (Inr (Some meta)) now \<and> k = AwaitMetadata (Some txs) \<and>
         txs \<noteq> [] \<and> analyzeOnChain args txs meta = Inl err"
  then obtain txs meta now where e: "e = MetadataSettles n (Inr (Some meta)) now"
    "k = AwaitMetadata (Some txs)" "txs \<noteq> []" "analyzeOnChain args txs meta = Inl err"
    by blast
  have c: "control s = AwaitAll" "n < length (tasks s)"
    using step_of_task [OF assms(1)] e(1) by simp_all
  show ?thesis using e assms(1,2) c by (simp add: resume_def after_metadata_def)
qed

section \<open>The counters\<close>

lemma counted_step:
  assumes "step args s e = Some s'" "counted s"
  shows "counted s'"
  using assms
proof (cases rule: step_cases)
  case (task n j token old k s1)
  then show ?thesis using assms(2) by (simp add: task_progress_def counted_def)
qed (simp_all add: counted_def launch_def join_def return_result_def Let_def)

lemma counted_run:
  assumes "run args (initial c) es = Some s"
  shows "counted s"
proof -
  have "counted (initial c :: 'a state)" by (simp add: counted_def initial_def)
  with assms show ?thesis
    by (rule run_invariant [where P = counted]) (rule counted_step)
qed

section \<open>The shape of a run\<close>

lemma relative_index_nonneg:
  "0 \<le> x \<Longrightarrow> relative_index len x = min (nat \<lfloor>x\<rfloor>) len"
  by (simp add: relative_index_def ToIntegerOrInfinity_def Let_def)

lemma relative_index_le: "relative_index len x \<le> len"
  by (auto simp: relative_index_def Let_def)

lemma relative_index_mono:
  assumes "0 \<le> x" "x \<le> y"
  shows "relative_index len x \<le> relative_index len y"
proof -
  have "\<lfloor>x\<rfloor> \<le> \<lfloor>y\<rfloor>" using assms by (simp add: floor_mono)
  then have "nat \<lfloor>x\<rfloor> \<le> nat \<lfloor>y\<rfloor>" by simp
  then show ?thesis using assms by (simp add: relative_index_nonneg min.coboundedI1)
qed

lemma relative_index_inside:
  assumes "0 \<le> x" "x < real len"
  shows "relative_index len x = nat \<lfloor>x\<rfloor>" "relative_index len x < len"
proof -
  have "\<lfloor>x\<rfloor> < int len" using assms by linarith
  moreover have "0 \<le> \<lfloor>x\<rfloor>" using assms by simp
  ultimately have "nat \<lfloor>x\<rfloor> < len" by linarith
  then show "relative_index len x = nat \<lfloor>x\<rfloor>" "relative_index len x < len"
    using assms by (simp_all add: relative_index_nonneg)
qed

lemma relative_index_beyond:
  assumes "\<not> x < real len" "0 \<le> x"
  shows "relative_index len x = len"
proof -
  have "int len \<le> \<lfloor>x\<rfloor>" using assms by linarith
  then have "len \<le> nat \<lfloor>x\<rfloor>" by linarith
  then show ?thesis using assms by (simp add: relative_index_nonneg)
qed

lemma relative_index_of_nat: "relative_index len (real k) = min k len"
  by (simp add: relative_index_nonneg)

lemma zip_upt_take_drop:
  "zip [a ..< a + length (take m (drop a xs))] (take m (drop a xs)) =
     map (\<lambda>j. (j, xs ! j)) [a ..< a + min m (length xs - a)]"
proof (rule nth_equalityI)
  show "length (zip [a ..< a + length (take m (drop a xs))] (take m (drop a xs))) =
      length (map (\<lambda>j. (j, xs ! j)) [a ..< a + min m (length xs - a)])"
    by simp
next
  fix n
  assume "n < length (zip [a ..< a + length (take m (drop a xs))] (take m (drop a xs)))"
  then have n: "n < m" "n < length xs - a" by simp_all
  then have "take m (drop a xs) ! n = xs ! (a + n)" by simp
  then show "zip [a ..< a + length (take m (drop a xs))] (take m (drop a xs)) ! n =
      map (\<lambda>j. (j, xs ! j)) [a ..< a + min m (length xs - a)] ! n"
    using n by simp
qed

lemma launch_eq:
  assumes "0 \<le> i s" "0 < concurrency args" "batch_range args s = (a, b)"
  shows "tasks (launch args s) = map (\<lambda>j. (j, tokens args ! j, AwaitGet)) [a ..< b]"
    and "trace (launch args s) = trace s @
      concat (map (\<lambda>j. [Started j, Called j (ClientGet (address (tokens args ! j)))]) [a ..< b])"
    and "a \<le> b"
proof -
  have ab: "a = relative_index (length (tokens args)) (i s)"
    "b = relative_index (length (tokens args)) (i s + concurrency args)"
    using assms(3) by (simp_all add: batch_range_def)
  show le: "a \<le> b" unfolding ab using assms by (intro relative_index_mono) simp_all
  have "b \<le> length (tokens args)" unfolding ab by (rule relative_index_le)
  then have m: "a + min (b - a) (length (tokens args) - a) = b" using le by simp
  have z: "zip [a ..< a + length (take (b - a) (drop a (tokens args)))] (take (b - a) (drop a (tokens args)))
      = map (\<lambda>j. (j, tokens args ! j)) [a ..< b]"
    using zip_upt_take_drop [of a "b - a" "tokens args"] m by simp
  show "tasks (launch args s) = map (\<lambda>j. (j, tokens args ! j, AwaitGet)) [a ..< b]"
    using z by (simp add: launch_def slice_def Let_def ab [symmetric] comp_def)
  show "trace (launch args s) = trace s @
      concat (map (\<lambda>j. [Started j, Called j (ClientGet (address (tokens args ! j)))]) [a ..< b])"
    using z by (simp add: launch_def slice_def Let_def ab [symmetric] comp_def)
qed

lemma length_filter_update:
  "n < length xs \<Longrightarrow> \<not> P (xs ! n) \<Longrightarrow>
     length (filter P (xs[n := x])) = length (filter P xs) + (if P x then 1 else 0)"
proof (induction xs arbitrary: n)
  case Nil
  then show ?case by simp
next
  case (Cons y ys)
  then show ?case by (cases n) auto
qed

lemma well_formed_initial: "well_formed args (initial c)"
  by (simp add: well_formed_def initial_def batch_range_def relative_index_def
      ToIntegerOrInfinity_def)

lemma well_formed_launch:
  assumes c: "0 < concurrency args" and w: "well_formed args s"
    and h: "control s = LoopHead" "i s < real (length (tokens args))"
  shows "well_formed args (launch args s)"
proof -
  obtain a b where r: "batch_range args s = (a, b)" by (cases "batch_range args s")
  from w r h have s: "0 \<le> i s" "processed s = a" "\<forall>j<a. Settled j \<in> set (trace s)"
    by (simp_all add: well_formed_def)
  note l = launch_eq [OF s(1) c r]
  have f: "i (launch args s) = i s" "control (launch args s) = AwaitAll"
    "processed (launch args s) = processed s"
    by (simp_all add: launch_def Let_def)
  have r': "batch_range args (launch args s) = (a, b)"
    using r f by (simp add: batch_range_def)
  have "filter settled (tasks (launch args s)) = []"
    unfolding l(1) by (simp add: filter_empty_conv settled_def)
  moreover have "\<forall>t\<in>set (tasks (launch args s)). \<not> settled t"
    unfolding l(1) by (simp add: settled_def)
  moreover have "map (\<lambda>t. (fst t, fst (snd t))) (tasks (launch args s)) =
      map (\<lambda>j. (j, tokens args ! j)) [a ..< b]"
    unfolding l(1) by (simp add: comp_def)
  moreover have "\<forall>j<a. Settled j \<in> set (trace (launch args s))"
    unfolding l(2) using s(3) by simp
  ultimately show ?thesis
    using f s h r' by (simp add: well_formed_def)
qed

lemma well_formed_return:
  assumes w: "well_formed args s"
    and h: "control s = LoopHead" "\<not> i s < real (length (tokens args))"
  shows "well_formed args (return_result s)"
proof -
  obtain a b where r: "batch_range args s = (a, b)" by (cases "batch_range args s")
  from w r h have s: "0 \<le> i s" "processed s = a" by (simp_all add: well_formed_def)
  have "a = length (tokens args)"
    using r relative_index_beyond [OF h(2) s(1)] by (simp add: batch_range_def)
  then show ?thesis using s
    by (simp add: well_formed_def return_result_def counters_def split: prod.splits)
qed

lemma well_formed_join:
  assumes c: "0 < concurrency args" and w: "well_formed args s"
    and h: "control s = AwaitAll" "list_all settled (tasks s)"
  shows "well_formed args (join args s)"
proof -
  obtain a b where r: "batch_range args s = (a, b)" by (cases "batch_range args s")
  from w r h have s: "0 \<le> i s"
    "map (\<lambda>t. (fst t, fst (snd t))) (tasks s) = map (\<lambda>j. (j, tokens args ! j)) [a ..< b]"
    "processed s = a + length (filter settled (tasks s))"
    "\<forall>j<a. Settled j \<in> set (trace s)"
    "\<forall>t\<in>set (tasks s). settled t \<longrightarrow> Settled (fst t) \<in> set (trace s)"
    by (simp_all add: well_formed_def)
  have ab: "a = relative_index (length (tokens args)) (i s)"
    "b = relative_index (length (tokens args)) (i s + concurrency args)"
    using r by (simp_all add: batch_range_def)
  have le: "a \<le> b" unfolding ab using s(1) c by (intro relative_index_mono) simp_all
  have len: "length (tasks s) = b - a"
    using arg_cong [OF s(2), of length] by simp
  have "filter settled (tasks s) = tasks s" using h(2) by (simp add: list_all_iff)
  then have p: "processed s = b" using s(3) len le by simp
  have ids: "map fst (tasks s) = [a ..< b]"
    using arg_cong [OF s(2), of "map fst"] by (simp add: comp_def)
  have all: "\<forall>j<b. Settled j \<in> set (trace s)"
  proof (intro allI impI)
    fix j assume "j < b"
    show "Settled j \<in> set (trace s)"
    proof (cases "j < a")
      case True
      then show ?thesis using s(4) by simp
    next
      case False
      then have "j \<in> set (map fst (tasks s))" using \<open>j < b\<close> ids by simp
      then obtain t where t: "t \<in> set (tasks s)" "fst t = j" by auto
      then have "settled t" using h(2) by (simp add: list_all_iff)
      then show ?thesis using s(5) t by blast
    qed
  qed
  have j: "i (join args s) = i s + concurrency args" "control (join args s) = LoopHead"
    "processed (join args s) = processed s"
    "set (trace s) \<subseteq> set (trace (join args s))"
    by (auto simp: join_def)
  have "fst (batch_range args (join args s)) = b"
    using j(1) ab by (simp add: batch_range_def)
  moreover have "0 \<le> i (join args s)" using j(1) s(1) c by simp
  ultimately show ?thesis
    using j p all by (auto simp: well_formed_def split: prod.splits)
qed

lemma well_formed_task:
  assumes w: "well_formed args s"
    and h: "control s = AwaitAll" "n < length (tasks s)" "tasks s ! n = (j, token, old)"
      "old \<noteq> Fulfilled" "task_progress args j token s (k, s1)"
  shows "well_formed args (s1\<lparr>tasks := (tasks s)[n := (j, token, k)]\<rparr>)"
proof -
  let ?s' = "s1\<lparr>tasks := (tasks s)[n := (j, token, k)]\<rparr>"
  obtain a b where r: "batch_range args s = (a, b)" by (cases "batch_range args s")
  from w r h have s: "0 \<le> i s" "i s < real (length (tokens args))"
    "map (\<lambda>t. (fst t, fst (snd t))) (tasks s) = map (\<lambda>j. (j, tokens args ! j)) [a ..< b]"
    "processed s = a + length (filter settled (tasks s))"
    "\<forall>j<a. Settled j \<in> set (trace s)"
    "\<forall>t\<in>set (tasks s). settled t \<longrightarrow> Settled (fst t) \<in> set (trace s)"
    by (simp_all add: well_formed_def)
  from h(5) obtain es where p: "i s1 = i s" "control s1 = control s"
    "trace s1 = trace s @ es" "k = Fulfilled \<longrightarrow> Settled j \<in> set es"
    "processed s1 = (if k = Fulfilled then processed s + 1 else processed s)"
    by (auto simp: task_progress_def)
  have r': "batch_range args ?s' = (a, b)" using r p(1) by (simp add: batch_range_def)
  have "map (\<lambda>t. (fst t, fst (snd t))) ((tasks s)[n := (j, token, k)]) =
      (map (\<lambda>t. (fst t, fst (snd t))) (tasks s))[n := (j, token)]"
    by (simp add: map_update)
  also have "\<dots> = map (\<lambda>t. (fst t, fst (snd t))) (tasks s)"
    using h(2,3) by (intro list_update_same_conv [THEN iffD2]) simp_all
  finally have m: "map (\<lambda>t. (fst t, fst (snd t))) (tasks ?s') =
      map (\<lambda>j. (j, tokens args ! j)) [a ..< b]"
    using s(3) by simp
  have "\<not> settled (tasks s ! n)" using h(3,4) by (simp add: settled_def)
  then have "length (filter settled ((tasks s)[n := (j, token, k)])) =
      length (filter settled (tasks s)) + (if k = Fulfilled then 1 else 0)"
    using length_filter_update [of n "tasks s" settled "(j, token, k)"] h(2)
    by (simp add: settled_def)
  then have c: "processed ?s' = a + length (filter settled (tasks ?s'))"
    using p(5) s(4) by simp
  have t1: "\<forall>j<a. Settled j \<in> set (trace ?s')" using s(5) p(3) by simp
  have t2: "\<forall>t\<in>set (tasks ?s'). settled t \<longrightarrow> Settled (fst t) \<in> set (trace ?s')"
  proof (intro ballI impI)
    fix t assume t: "t \<in> set (tasks ?s')" "settled t"
    then have "t = (j, token, k) \<or> t \<in> set (tasks s)"
      using set_update_subset_insert [of "tasks s" n "(j, token, k)"] by auto
    then show "Settled (fst t) \<in> set (trace ?s')"
    proof
      assume "t = (j, token, k)"
      then show ?thesis using t(2) p(3,4) by (simp add: settled_def)
    next
      assume "t \<in> set (tasks s)"
      then show ?thesis using t(2) s(6) p(3) by simp
    qed
  qed
  show ?thesis
    using r' p(1,2) h(1) s(1,2) m c t1 t2 by (simp add: well_formed_def)
qed

lemma well_formed_step:
  assumes "0 < concurrency args" "well_formed args s" "step args s e = Some s'"
  shows "well_formed args s'"
  using assms(3)
proof (cases rule: step_cases)
  case launch
  then show ?thesis using well_formed_launch assms by metis
next
  case return
  then show ?thesis using well_formed_return assms by metis
next
  case join
  then show ?thesis using well_formed_join assms by metis
next
  case (task n j token old k s1)
  then show ?thesis using well_formed_task [OF assms(2)] by metis
qed

lemma well_formed_run:
  assumes "0 < concurrency args" "run args (initial c) es = Some s"
  shows "well_formed args s"
  using assms(2) well_formed_initial
  by (rule run_invariant [where P = "well_formed args"]) (rule well_formed_step [OF assms(1)])

lemma all_processed_at_return:
  assumes "0 < concurrency args" "run args (initial c) es = Some s" "control s = Returned r"
  shows "processed s = length (tokens args)" "r = counters s"
  using well_formed_run [OF assms(1,2)] assms(3)
  by (simp_all add: well_formed_def split: prod.splits)

section \<open>Completion\<close>

lemma length_filter_update_less:
  "n < length xs \<Longrightarrow> Q (xs ! n) \<Longrightarrow> \<not> Q x \<Longrightarrow>
     length (filter Q (xs[n := x])) < length (filter Q xs)"
proof (induction xs arbitrary: n)
  case Nil
  then show ?case by simp
next
  case (Cons y ys)
  show ?case
  proof (cases n)
    case 0
    then show ?thesis using Cons.prems by simp
  next
    case (Suc m)
    then have "length (filter Q (ys[m := x])) < length (filter Q ys)"
      using Cons.IH [of m] Cons.prems by simp
    then show ?thesis using Suc by simp
  qed
qed

text \<open>Every pending task can settle: a state in a batch is never stuck.\<close>

lemma pending_can_settle:
  assumes "control s = AwaitAll" "n < length (tasks s)" "tasks s ! n = (j, token, k)"
    "k \<noteq> Fulfilled"
  shows "\<exists>e. task_of e = Some n \<and>
    step args s e = Some ((catch_block j ''rejected'' s)\<lparr>tasks := (tasks s)[n := (j, token, Fulfilled)]\<rparr>)"
proof (cases k)
  case AwaitGet
  then have "step args s (GetSettles n (Some ''rejected'')) =
      Some ((catch_block j ''rejected'' s)\<lparr>tasks := (tasks s)[n := (j, token, Fulfilled)]\<rparr>)"
    using assms by (simp add: resume_def after_get_def)
  then show ?thesis by (metis task_of.simps(2))
next
  case AwaitTransactions
  then have "step args s (TransactionsSettle n (Inl ''rejected'')) =
      Some ((catch_block j ''rejected'' s)\<lparr>tasks := (tasks s)[n := (j, token, Fulfilled)]\<rparr>)"
    using assms by (simp add: resume_def after_transactions_def)
  then show ?thesis by (metis task_of.simps(3))
next
  case (AwaitMetadata txs)
  then have "step args s (MetadataSettles n (Inl ''rejected'') 0) =
      Some ((catch_block j ''rejected'' s)\<lparr>tasks := (tasks s)[n := (j, token, Fulfilled)]\<rparr>)"
    using assms by (simp add: resume_def after_metadata_def)
  then show ?thesis by (metis task_of.simps(4))
next
  case (AwaitSet key val)
  then have "step args s (SetSettles n (Some ''rejected'')) =
      Some ((catch_block j ''rejected'' s)\<lparr>tasks := (tasks s)[n := (j, token, Fulfilled)]\<rparr>)"
    using assms by (simp add: resume_def after_set_def)
  then show ?thesis by (metis task_of.simps(5))
next
  case Fulfilled
  then show ?thesis using assms by simp
qed

lemma batch_can_settle:
  assumes "control s = AwaitAll"
  shows "\<exists>es s'. run args s es = Some s' \<and> control s' = AwaitAll \<and>
    list_all settled (tasks s') \<and> i s' = i s"
  using assms
proof (induction "length (filter (\<lambda>t. \<not> settled t) (tasks s))" arbitrary: s rule: less_induct)
  case less
  show ?case
  proof (cases "list_all settled (tasks s)")
    case True
    then have "run args s [] = Some s \<and> control s = AwaitAll \<and> list_all settled (tasks s) \<and> i s = i s"
      using less.prems by simp
    then show ?thesis by blast
  next
    case False
    then obtain n where n: "n < length (tasks s)" "\<not> settled (tasks s ! n)"
      by (auto simp: list_all_length)
    obtain j token k where t: "tasks s ! n = (j, token, k)" by (cases "tasks s ! n") auto
    then have k: "k \<noteq> Fulfilled" using n(2) by (simp add: settled_def)
    let ?s1 = "(catch_block j ''rejected'' s)\<lparr>tasks := (tasks s)[n := (j, token, Fulfilled)]\<rparr>"
    from pending_can_settle [OF less.prems n(1) t k]
    obtain e where e: "step args s e = Some ?s1" by blast
    have f: "control ?s1 = AwaitAll" "i ?s1 = i s" "tasks ?s1 = (tasks s)[n := (j, token, Fulfilled)]"
      using less.prems by (simp_all add: failure_settles)
    have "length (filter (\<lambda>t. \<not> settled t) (tasks ?s1)) < length (filter (\<lambda>t. \<not> settled t) (tasks s))"
      unfolding f(3) using n by (intro length_filter_update_less) (simp_all add: settled_def)
    from less.hyps [OF this f(1)]
    obtain es s' where r: "run args ?s1 es = Some s'" "control s' = AwaitAll"
      "list_all settled (tasks s')" "i s' = i ?s1" by blast
    have "run args s (e # es) = Some s'" using e r(1) by simp
    then show ?thesis using r f(2) by metis
  qed
qed

lemma loop_can_return:
  assumes "0 < concurrency args" "control s = LoopHead"
  shows "\<exists>es s' r. run args s es = Some s' \<and> control s' = Returned r"
  using assms(2)
proof (induction "nat \<lceil>(real (length (tokens args)) - i s) / concurrency args\<rceil>"
    arbitrary: s rule: less_induct)
  case less
  show ?case
  proof (cases "i s < real (length (tokens args))")
    case False
    then have "run args s [Tick] = Some (return_result s)" using less.prems by simp
    moreover have "control (return_result s) = Returned (counters s)"
      by (simp add: return_result_def counters_def)
    ultimately show ?thesis by blast
  next
    case True
    have l: "step args s Tick = Some (launch args s)" using True less.prems by simp
    have "control (launch args s) = AwaitAll" "i (launch args s) = i s"
      by (simp_all add: launch_def Let_def)
    with batch_can_settle [of "launch args s" args]
    obtain es1 s2 where b: "run args (launch args s) es1 = Some s2" "control s2 = AwaitAll"
      "list_all settled (tasks s2)" "i s2 = i s" by auto
    have j: "step args s2 Tick = Some (join args s2)" using b(2,3) by simp
    have c: "control (join args s2) = LoopHead" "i (join args s2) = i s + concurrency args"
      using b(4) by (simp_all add: join_def)
    let ?q = "(real (length (tokens args)) - i s) / concurrency args"
    have "(real (length (tokens args)) - i (join args s2)) / concurrency args = ?q - 1"
      using assms(1) c(2) by (simp add: field_simps)
    moreover have "0 < ?q" using True assms(1) by simp
    ultimately have "nat \<lceil>(real (length (tokens args)) - i (join args s2)) / concurrency args\<rceil>
        < nat \<lceil>?q\<rceil>"
      by (simp; linarith)
    from less.hyps [OF this c(1)]
    obtain es3 s' r where f: "run args (join args s2) es3 = Some s'" "control s' = Returned r"
      by blast
    have "run args s (Tick # es1 @ Tick # es3) = Some s'"
      using l b(1) j f(1) by (simp add: run_append)
    then show ?thesis using f(2) by blast
  qed
qed

lemma can_complete:
  assumes "0 < concurrency args" "control s = AwaitAll"
  shows "\<exists>es s' r. run args s es = Some s' \<and> control s' = Returned r"
proof -
  from batch_can_settle [OF assms(2), of args]
  obtain es1 s2 where b: "run args s es1 = Some s2" "control s2 = AwaitAll"
    "list_all settled (tasks s2)" by blast
  have j: "step args s2 Tick = Some (join args s2)" using b(2,3) by simp
  have "control (join args s2) = LoopHead" by (simp add: join_def)
  from loop_can_return [OF assms(1) this]
  obtain es3 s' r where f: "run args (join args s2) es3 = Some s'" "control s' = Returned r"
    by blast
  have "run args s (es1 @ Tick # es3) = Some s'" using b(1) j f(1) by (simp add: run_append)
  then show ?thesis using f(2) by blast
qed

lemma completion_reachable:
  assumes "0 < concurrency args"
  shows "\<exists>es s' r. run args s es = Some s' \<and> control s' = Returned r"
proof (cases "control s")
  case LoopHead
  then show ?thesis using loop_can_return [OF assms] by blast
next
  case AwaitAll
  then show ?thesis using can_complete [OF assms] by blast
next
  case (Returned r)
  then have "run args s [] = Some s \<and> control s = Returned r" by simp
  then show ?thesis by blast
qed

text \<open>
  With a concurrency that is not positive the loop variable never passes the length of a
  token list that is not empty: the call does not return.
\<close>

lemma stalled_step:
  assumes "concurrency args \<le> 0" "tokens args \<noteq> []"
    and "i s \<le> 0 \<and> (\<forall>r. control s \<noteq> Returned r)" "step args s e = Some s'"
  shows "i s' \<le> 0 \<and> (\<forall>r. control s' \<noteq> Returned r)"
  using assms(4)
proof (cases rule: step_cases)
  case launch
  then show ?thesis using assms(3) by (simp add: launch_def Let_def)
next
  case return
  have "0 < real (length (tokens args))" using assms(2) by simp
  then show ?thesis using return(3) assms(3) by linarith
next
  case join
  then show ?thesis using assms(1,3) by (simp add: join_def)
next
  case (task n j token old k s1)
  then show ?thesis using assms(3) by (simp add: task_progress_def)
qed

lemma never_returns:
  assumes "concurrency args \<le> 0" "tokens args \<noteq> []" "run args (initial c) es = Some s"
  shows "control s \<noteq> Returned r"
proof -
  have "i (initial c :: 'a state) \<le> 0 \<and> (\<forall>r. control (initial c :: 'a state) \<noteq> Returned r)"
    by (simp add: initial_def)
  with assms(3) have "i s \<le> 0 \<and> (\<forall>r. control s \<noteq> Returned r)"
    by (rule run_invariant [where P = "\<lambda>s. i s \<le> 0 \<and> (\<forall>r. control s \<noteq> Returned r)"])
      (rule stalled_step [OF assms(1,2)])
  then show ?thesis by simp
qed

text \<open>
  Claim C3.  In every state that a call of \<open>analyzeAndStoreTokens\<close> reaches, for every
  token list, every \<open>forceUpdate\<close> flag, every concurrency, every interleaving of the tasks
  and every answer of the collaborators, \<open>processed\<close> is the sum of \<open>updated\<close>, \<open>skipped\<close>,
  \<open>noData\<close> and \<open>failed\<close>; so it is when the call completes.  With a positive concurrency
  the call can complete from every state it reaches, and when it has returned every token
  has been counted once (\<open>processed\<close> is the length of the token list) and the object
  returned holds the four counters.
\<close>

theorem C3_counter_equation:
  assumes "run args (initial c) es = Some s"
  shows "processed s = updated s + skipped s + noData s + failed s \<and>
    (\<forall>r. control s = Returned r \<and> 0 < concurrency args \<longrightarrow>
        processed s = length (tokens args) \<and> r = counters s) \<and>
    (0 < concurrency args \<longrightarrow>
        (\<exists>es' final r. run args s es' = Some final \<and> control final = Returned r))"
  using counted_run [OF assms] all_processed_at_return [OF _ assms]
    completion_reachable [of args s]
  by (auto simp: counted_def)

theorem C3_witness:
  "\<exists>s r. run four_tokens (initial Map.empty) (first_chunk_settles @ second_chunk_settles) = Some s \<and>
     control s = Returned r \<and> processed s = 4 \<and>
     updated s = 1 \<and> skipped s = 0 \<and> noData s = 1 \<and> failed s = 2 \<and>
     processed s = updated s + skipped s + noData s + failed s \<and> r = counters s"
proof -
  define s where "s = the (run four_tokens (initial Map.empty) (first_chunk_settles @ second_chunk_settles))"
  have r: "run four_tokens (initial Map.empty) (first_chunk_settles @ second_chunk_settles) = Some s"
    unfolding s_def by (simp add: run_defs token_on_def example_call_def four_tokens_def first_chunk_settles_def
      second_chunk_settles_def)
  have c: "control s = Returned (counters s)"
    unfolding s_def by (simp add: run_defs token_on_def example_call_def four_tokens_def first_chunk_settles_def
      second_chunk_settles_def counters_def)
  have n: "updated s = 1" "skipped s = 0" "noData s = 1" "failed s = 2"
    unfolding s_def by (simp_all add: run_defs token_on_def example_call_def four_tokens_def first_chunk_settles_def
      second_chunk_settles_def)
  have p: "0 < concurrency four_tokens" "length (tokens four_tokens) = 4"
    by (simp_all add: token_on_def example_call_def four_tokens_def first_chunk_settles_def
      second_chunk_settles_def)
  from C3_counter_equation [OF r] c p n
  have "processed s = updated s + skipped s + noData s + failed s" "processed s = 4"
    by simp_all
  then show ?thesis using r c n by blast
qed

section \<open>The barrier between chunks\<close>

lemma barrier_append:
  assumes "barrier n tr"
    and "\<And>j j'. Started j \<in> set es \<Longrightarrow> j' div n < j div n \<Longrightarrow> Settled j' \<in> set tr"
  shows "barrier n (tr @ es)"
  unfolding barrier_def
proof (intro allI impI, elim conjE)
  fix p j j'
  assume p: "p < length (tr @ es)" "(tr @ es) ! p = Started j" "j' div n < j div n"
  show "Settled j' \<in> set (take p (tr @ es))"
  proof (cases "p < length tr")
    case True
    then have "tr ! p = Started j" using p(2) by (simp add: nth_append)
    then have "Settled j' \<in> set (take p tr)"
      using assms(1) True p(3) unfolding barrier_def by blast
    then show ?thesis using True by simp
  next
    case False
    then have "es ! (p - length tr) = Started j" "p - length tr < length es"
      using p(1,2) by (simp_all add: nth_append)
    then have "Started j \<in> set es" by (metis nth_mem)
    then have "Settled j' \<in> set tr" using assms(2) p(3) by blast
    then show ?thesis using False by simp
  qed
qed

lemma barrier_append_quiet:
  assumes "barrier n tr" "\<forall>e\<in>set es. \<forall>m. e \<noteq> Started m"
  shows "barrier n (tr @ es)"
  using assms(1) by (rule barrier_append) (use assms(2) in blast)

lemma nat_range:
  assumes "i s = real (m * n)" "i s < real (length (tokens args))" "concurrency args = real n"
    "batch_range args s = (a, b)"
  shows "a = m * n" "b = min ((m + 1) * n) (length (tokens args))"
proof -
  have "real (m * n) < real (length (tokens args))" using assms(1,2) by (simp only:)
  then have lt: "m * n < length (tokens args)" by (simp only: of_nat_less_iff)
  show "a = m * n"
    using assms(1,4) lt relative_index_of_nat [of "length (tokens args)" "m * n"]
    by (simp add: batch_range_def)
  have "i s + concurrency args = real ((m + 1) * n)" using assms(1,3) by (simp add: algebra_simps)
  then show "b = min ((m + 1) * n) (length (tokens args))"
    using assms(4) relative_index_of_nat [of "length (tokens args)" "(m + 1) * n"]
    by (simp add: batch_range_def)
qed

lemma chunked_step:
  assumes n: "concurrency args = real n" "0 < n"
    and c: "chunked n args s" and st: "step args s e = Some s'"
  shows "chunked n args s'"
proof -
  have pos: "0 < concurrency args" using n by simp
  from c obtain m where w: "well_formed args s" and m: "i s = real (m * n)"
    and b: "barrier n (trace s)" by (auto simp: chunked_def)
  have w': "well_formed args s'" using well_formed_step [OF pos w st] .
  from st have "(\<exists>m. i s' = real (m * n)) \<and> barrier n (trace s')"
  proof (cases rule: step_cases)
    case launch
    obtain a b' where r: "batch_range args s = (a, b')" by (cases "batch_range args s")
    note ab = nat_range [OF m launch(3) n(1) r]
    from w r launch have s: "0 \<le> i s" "\<forall>j<a. Settled j \<in> set (trace s)"
      by (simp_all add: well_formed_def)
    note l = launch_eq [OF s(1) pos r]
    have "barrier n (trace s @
        concat (map (\<lambda>j. [Started j, Called j (ClientGet (address (tokens args ! j)))]) [a ..< b']))"
    proof (rule barrier_append [OF b])
      fix j j'
      assume "Started j \<in> set (concat (map (\<lambda>j. [Started j,
          Called j (ClientGet (address (tokens args ! j)))]) [a ..< b']))"
        and lt: "j' div n < j div n"
      then have j: "a \<le> j" "j < b'" by auto
      then have "j < (m + 1) * n" using ab(2) by simp
      then have "j div n < m + 1" using n(2) by (simp add: div_less_iff_less_mult)
      then have "j' div n < m" using lt by simp
      then have "j' < m * n" using n(2) by (simp add: div_less_iff_less_mult)
      then show "Settled j' \<in> set (trace s)" using s(2) ab(1) by simp
    qed
    moreover have "i (launch args s) = i s" by (simp add: launch_def Let_def)
    ultimately show ?thesis using launch(4) l(2) m by auto
  next
    case return
    then show ?thesis using m b by (auto simp: return_result_def)
  next
    case join
    have "i s' = real ((m + 1) * n)" using join(4) m n(1) by (simp add: join_def algebra_simps)
    moreover have "barrier n (trace s')"
      using barrier_append_quiet [OF b, of "[Progress (processed s) (updated s) (skipped s) (noData s) (failed s)]"]
        join(4) by (simp add: join_def)
    ultimately show ?thesis by blast
  next
    case (task k j token old k' s1)
    then obtain es where "i s1 = i s" "trace s1 = trace s @ es" "\<forall>e\<in>set es. \<forall>m. e \<noteq> Started m"
      by (auto simp: task_progress_def)
    then show ?thesis using task(6) m barrier_append_quiet [OF b, of es] by auto
  qed
  then show ?thesis using w' by (simp add: chunked_def)
qed

lemma chunked_initial: "chunked n args (initial c)"
  using well_formed_initial [of args c]
  by (simp add: chunked_def) (simp add: initial_def barrier_def)

lemma chunked_run:
  assumes "concurrency args = real n" "0 < n" "run args (initial c) es = Some s"
  shows "chunked n args s"
  using assms(3) chunked_initial
  by (rule run_invariant [where P = "chunked n args"]) (rule chunked_step [OF assms(1,2)])

lemma map_nth_upt: "b \<le> length xs \<Longrightarrow> map (\<lambda>j. xs ! j) [a ..< b] = take (b - a) (drop a xs)"
  by (rule nth_equalityI) auto

lemma take_chunk: "take (min ((m + 1) * n) (length xs) - m * n) (drop (m * n) xs) = take n (drop (m * n) xs)"
proof (cases "(m + 1) * n \<le> length xs")
  case True
  then show ?thesis by simp
next
  case False
  then have "length (drop (m * n) xs) \<le> n" by simp
  moreover have "min ((m + 1) * n) (length xs) - m * n = length (drop (m * n) xs)"
    using False by simp
  ultimately show ?thesis by simp
qed

lemma chunk_shape:
  assumes n: "concurrency args = real n" "0 < n"
    and c: "chunked n args s" and h: "control s = AwaitAll"
  shows "\<exists>m. i s = real (m * n) \<and>
      map (\<lambda>t. fst (snd t)) (tasks s) = take n (drop (m * n) (tokens args)) \<and>
      map fst (tasks s) = [m * n ..< m * n + length (tasks s)]"
proof -
  from c obtain m where w: "well_formed args s" and m: "i s = real (m * n)"
    by (auto simp: chunked_def)
  obtain a b where r: "batch_range args s = (a, b)" by (cases "batch_range args s")
  from w r h have s: "i s < real (length (tokens args))"
    "map (\<lambda>t. (fst t, fst (snd t))) (tasks s) = map (\<lambda>j. (j, tokens args ! j)) [a ..< b]"
    by (simp_all add: well_formed_def)
  note ab = nat_range [OF m s(1) n(1) r]
  have "real (m * n) < real (length (tokens args))" using m s(1) by (simp only:)
  then have "m * n < length (tokens args)" by (simp only: of_nat_less_iff)
  then have le: "a \<le> b" using ab by simp
  have "map (\<lambda>t. fst (snd t)) (tasks s) = map (\<lambda>j. tokens args ! j) [a ..< b]"
    using arg_cong [OF s(2), of "map snd"] by (simp add: comp_def)
  also have "\<dots> = take (b - a) (drop a (tokens args))"
    using ab(2) by (intro map_nth_upt) simp
  also have "\<dots> = take n (drop (m * n) (tokens args))"
    unfolding ab by (rule take_chunk)
  finally have t: "map (\<lambda>t. fst (snd t)) (tasks s) = take n (drop (m * n) (tokens args))" .
  have ids: "map fst (tasks s) = [a ..< b]"
    using arg_cong [OF s(2), of "map fst"] by (simp add: comp_def)
  have "length (map fst (tasks s)) = length [a ..< b]" using ids by (simp only:)
  then have "length (tasks s) = b - a" by simp
  then have "map fst (tasks s) = [m * n ..< m * n + length (tasks s)]"
    using ids le ab(1) by simp
  then show ?thesis using m t by blast
qed

text \<open>
  Claim C4.  With a concurrency \<open>C\<close> that is a positive integer, the batch in flight is
  always a chunk of the token list: the \<open>C\<close> tokens from position \<open>m * C\<close> on (fewer at
  the end of the list), in order; its tasks interleave freely.  And the chunks are
  separated by a barrier: wherever the trace of a run has the start of token \<open>j\<close>, every
  token \<open>j'\<close> of an earlier chunk has settled before that point.  For \<open>C = 2\<close> and four
  tokens, tokens 3 and 4 start only after tokens 1 and 2 have both settled.
\<close>

theorem C4_chunk_barrier:
  assumes "concurrency args = real n" "0 < n" "run args (initial c) es = Some s"
  shows "(control s = AwaitAll \<longrightarrow>
      (\<exists>m. i s = real (m * n) \<and>
        map (\<lambda>t. fst (snd t)) (tasks s) = take n (drop (m * n) (tokens args)) \<and>
        map fst (tasks s) = [m * n ..< m * n + length (tasks s)])) \<and>
    (\<forall>pre j post j'. trace s = pre @ Started j # post \<and> j' div n < j div n
        \<longrightarrow> Settled j' \<in> set pre)"
proof -
  note c = chunked_run [OF assms]
  have "\<forall>pre j post j'. trace s = pre @ Started j # post \<and> j' div n < j div n
        \<longrightarrow> Settled j' \<in> set pre"
  proof (intro allI impI, elim conjE)
    fix pre j post j'
    assume t: "trace s = pre @ Started j # post" and lt: "j' div n < j div n"
    have "barrier n (trace s)" using c by (simp add: chunked_def)
    moreover have "length pre < length (trace s)" "trace s ! length pre = Started j"
      using t by simp_all
    ultimately have "Settled j' \<in> set (take (length pre) (trace s))"
      using lt unfolding barrier_def by blast
    then show "Settled j' \<in> set pre" using t by simp
  qed
  then show ?thesis using chunk_shape [OF assms(1,2) c] by blast
qed

theorem C4_witness:
  "\<exists>s. run four_tokens (initial Map.empty) first_chunk_settles = Some s \<and>
     trace s =
       [Started 0, Called 0 (ClientGet ''0xa''), Started 1, Called 1 (ClientGet ''0xb''),
        Called 1 (GetAllTokenTransactions ''0xb''), Called 0 (GetAllTokenTransactions ''0xa''),
        Called 1 (Metadata ''0xb''), Settled 1, LoggedError 0 ''timeout'', Settled 0,
        Progress 2 0 0 1 1]
       @ Started 2 # [Called 2 (ClientGet ''0xc''), Started 3, Called 3 (ClientGet ''0xd'')] \<and>
     Settled 0 \<in> set (take 11 (trace s)) \<and> Settled 1 \<in> set (take 11 (trace s)) \<and>
     map (\<lambda>t. fst (snd t)) (tasks s) = take 2 (drop 2 (tokens four_tokens))"
proof -
  define s where "s = the (run four_tokens (initial Map.empty) first_chunk_settles)"
  let ?pre = "[Started 0, Called 0 (ClientGet ''0xa''), Started 1, Called 1 (ClientGet ''0xb''),
        Called 1 (GetAllTokenTransactions ''0xb''), Called 0 (GetAllTokenTransactions ''0xa''),
        Called 1 (Metadata ''0xb''), Settled 1, LoggedError 0 ''timeout'', Settled 0,
        Progress 2 0 0 1 1]"
  let ?post = "[Called 2 (ClientGet ''0xc''), Started 3, Called 3 (ClientGet ''0xd'')]"
  have r: "run four_tokens (initial Map.empty) first_chunk_settles = Some s"
    unfolding s_def by (simp add: run_defs token_on_def example_call_def four_tokens_def first_chunk_settles_def)
  have t: "trace s = ?pre @ Started 2 # ?post"
    unfolding s_def by (simp add: run_defs token_on_def example_call_def four_tokens_def first_chunk_settles_def)
  have h: "concurrency four_tokens = real 2" "0 < (2::nat)" "control s = AwaitAll" "i s = 2"
    unfolding s_def by (simp_all add: run_defs token_on_def example_call_def four_tokens_def first_chunk_settles_def)
  note b = C4_chunk_barrier [OF h(1,2) r]
  have "(0::nat) div 2 < 2 div 2" "(1::nat) div 2 < 2 div 2" by simp_all
  with b t have p: "Settled 0 \<in> set ?pre" "Settled 1 \<in> set ?pre" by blast+
  from b h(3) obtain m where m: "i s = real (m * 2)"
    "map (\<lambda>t. fst (snd t)) (tasks s) = take 2 (drop (m * 2) (tokens four_tokens))" by blast
  from m(1) h(4) have "real (m * 2) = real 2" by simp
  then have "m * 2 = 2" by (simp only: of_nat_eq_iff)
  then have "map (\<lambda>t. fst (snd t)) (tasks s) = take 2 (drop 2 (tokens four_tokens))"
    using m(2) by simp
  then show ?thesis using r t p by simp
qed

section \<open>The cache writes of a run\<close>

lemma sound_write_set:
  "sound_write (Called j (ClientSet key payload)) =
     (key = cached_address payload \<and> 0 \<le> trendingscore payload \<and> trendingscore payload \<le> 100)"
  by (simp add: sound_write_def)

lemma sound_writes_step:
  assumes "step args s e = Some s'" "sound_writes s"
  shows "sound_writes s'"
  using assms(1)
proof (cases rule: step_cases)
  case launch
  then show ?thesis using assms(2)
    by (auto simp: sound_writes_def launch_def Let_def sound_write_def)
next
  case return
  then show ?thesis using assms(2) by (simp add: sound_writes_def return_result_def)
next
  case join
  then show ?thesis using assms(2) by (simp add: sound_writes_def join_def sound_write_def)
next
  case (task n j token old k s1)
  then obtain es where "trace s1 = trace s @ es" "\<forall>e\<in>set es. sound_write e"
    by (auto simp: task_progress_def)
  then show ?thesis using task(6) assms(2) by (auto simp: sound_writes_def)
qed

lemma sound_writes_run:
  assumes "run args (initial c) es = Some s"
  shows "sound_writes s"
proof -
  have "sound_writes (initial c :: 'a state)" by (simp add: sound_writes_def initial_def)
  with assms show ?thesis
    by (rule run_invariant [where P = sound_writes]) (rule sound_writes_step)
qed

lemma pending_writes_step:
  assumes "step args s e = Some s'" "pending_writes_keyed args s"
  shows "pending_writes_keyed args s'"
  using assms(1)
proof (cases rule: step_cases)
  case launch
  then show ?thesis
    by (auto simp: pending_writes_keyed_def launch_def Let_def)
next
  case return
  then show ?thesis using assms(2) by (simp add: pending_writes_keyed_def return_result_def)
next
  case join
  then show ?thesis using assms(2) by (simp add: pending_writes_keyed_def join_def)
next
  case (task n j token old k s1)
  have k: "\<forall>key val. k = AwaitSet key val \<longrightarrow> key = address token \<and>
        (\<exists>score now m. val = JSON_stringify args (cached_record token score now m))"
    using task(5) by (simp add: task_progress_def)
  show ?thesis
    unfolding pending_writes_keyed_def
  proof (intro ballI allI impI)
    fix t key val
    assume t: "t \<in> set (tasks s')" "snd (snd t) = AwaitSet key val"
    then have "t = (j, token, k) \<or> t \<in> set (tasks s)"
      using task(6) set_update_subset_insert [of "tasks s" n "(j, token, k)"] by auto
    then show "key = address (fst (snd t)) \<and>
        (\<exists>score now m. val = JSON_stringify args (cached_record (fst (snd t)) score now m))"
    proof
      assume "t = (j, token, k)"
      then show ?thesis using k t(2) by simp
    next
      assume "t \<in> set (tasks s)"
      then show ?thesis using assms(2) t(2) unfolding pending_writes_keyed_def by blast
    qed
  qed
qed

lemma pending_writes_run:
  assumes "run args (initial c) es = Some s"
  shows "pending_writes_keyed args s"
proof -
  have "pending_writes_keyed args (initial c :: 'a state)"
    by (simp add: pending_writes_keyed_def initial_def)
  with assms show ?thesis
    by (rule run_invariant [where P = "pending_writes_keyed args"]) (rule pending_writes_step)
qed

text \<open>
  Claim C2.  The value of \<open>calculateTrendingScore\<close> lies in the closed interval from 0 to
  100 for every metrics object (of finite numbers, as every real is), and so does the
  \<open>trendingscore\<close> field of every record that a run of \<open>analyzeAndStoreTokens\<close> hands to
  \<open>client.set\<close>.
\<close>

theorem C2_score_in_range:
  "0 \<le> calculateTrendingScore m \<and> calculateTrendingScore m \<le> 100 \<and>
   (run args (initial c) es = Some s \<longrightarrow>
      (\<forall>e\<in>set (trace s). \<forall>j key payload. e = Called j (ClientSet key payload)
          \<longrightarrow> 0 \<le> trendingscore payload \<and> trendingscore payload \<le> 100))"
proof -
  have "run args (initial c) es = Some s \<longrightarrow>
      (\<forall>e\<in>set (trace s). \<forall>j key payload. e = Called j (ClientSet key payload)
          \<longrightarrow> 0 \<le> trendingscore payload \<and> trendingscore payload \<le> 100)"
    using sound_writes_run [of args c es s] sound_write_set
    unfolding sound_writes_def by blast
  then show ?thesis using score_in_range [of m] by simp
qed

theorem C2_witness:
  "\<exists>s. run two_chains (initial Map.empty) both_written = Some s \<and>
     Called 1 (ClientSet ''0xabc''
       (cached_record (token_on ''0xabc'' 137 ''polygon'') (calculateTrendingScore example_metrics)
          1700000200 example_metrics)) \<in> set (trace s) \<and>
     0 \<le> calculateTrendingScore example_metrics \<and> calculateTrendingScore example_metrics \<le> 100"
proof -
  define s where "s = the (run two_chains (initial Map.empty) both_written)"
  let ?p = "cached_record (token_on ''0xabc'' 137 ''polygon'') (calculateTrendingScore example_metrics)
          1700000200 example_metrics"
  have r: "run two_chains (initial Map.empty) both_written = Some s"
    unfolding s_def by (simp add: run_defs token_on_def example_call_def two_chains_def both_written_def)
  have m: "Called 1 (ClientSet ''0xabc'' ?p) \<in> set (trace s)"
    unfolding s_def by (simp add: run_defs token_on_def example_call_def two_chains_def both_written_def)
  from C2_score_in_range [of example_metrics two_chains Map.empty both_written s] r m
  have "0 \<le> trendingscore ?p \<and> trendingscore ?p \<le> 100" by blast
  then have "0 \<le> calculateTrendingScore example_metrics \<and> calculateTrendingScore example_metrics \<le> 100"
    by (simp add: cached_record_def)
  then show ?thesis using r m by blast
qed

text \<open>
  Claim C9.  The key of a cache write is the address of the token and nothing else: the
  pending write of a task is keyed by the address of its token and carries the record of
  that token, every write in the trace is keyed by the address field of its record, and
  when the write resolves the entry under the address is replaced by the new value, whatever
  was there.  So a token with the same address on another chain reads and overwrites the
  same entry, and the cache holds one record for the address.
\<close>

theorem C9_cache_keyed_by_address:
  assumes "run args (initial c) es = Some s"
    and "tasks s ! n = (j, token, AwaitSet key val)"
    and "step args s (SetSettles n None) = Some s'"
  shows "key = address token \<and>
    (\<exists>score now m. val = JSON_stringify args (cached_record token score now m)) \<and>
    cache s' = (cache s)(address token \<mapsto> val) \<and>
    (\<forall>other. address other = address token \<longrightarrow> cache s' (address other) = Some val) \<and>
    (\<forall>e\<in>set (trace s). \<forall>j' key' payload. e = Called j' (ClientSet key' payload)
        \<longrightarrow> key' = cached_address payload)"
proof -
  have c: "control s = AwaitAll" "n < length (tasks s)"
    using step_of_task [OF assms(3)] by simp_all
  then have "(j, token, AwaitSet key val) \<in> set (tasks s)" using assms(2) by (metis nth_mem)
  then have k: "key = address token"
    "\<exists>score now m. val = JSON_stringify args (cached_record token score now m)"
    using pending_writes_run [OF assms(1)] unfolding pending_writes_keyed_def by fastforce+
  have "s' = (finally_block j (s\<lparr>cache := (cache s)(key \<mapsto> val), updated := updated s + 1\<rparr>))
      \<lparr>tasks := (tasks s)[n := (j, token, Fulfilled)]\<rparr>"
    using assms(2,3) c by (simp add: resume_def after_set_def)
  then have w: "cache s' = (cache s)(address token \<mapsto> val)"
    using k(1) by (simp add: finally_block_def)
  have "\<forall>e\<in>set (trace s). \<forall>j' key' payload. e = Called j' (ClientSet key' payload)
        \<longrightarrow> key' = cached_address payload"
    using sound_writes_run [OF assms(1)] sound_write_set
    unfolding sound_writes_def by blast
  then show ?thesis using k w by simp
qed

theorem C9_witness:
  "\<exists>s s'. run two_chains (initial Map.empty) both_written = Some s \<and>
     step two_chains s (SetSettles 1 None) = Some s' \<and>
     cache s ''0xabc'' = Some ''0xabc@ethereum'' \<and>
     cache s' ''0xabc'' = Some ''0xabc@polygon'' \<and>
     dom (cache s') = {''0xabc''}"
proof -
  define s where "s = the (run two_chains (initial Map.empty) both_written)"
  define s' where "s' = the (step two_chains s (SetSettles 1 None))"
  have r: "run two_chains (initial Map.empty) both_written = Some s"
    unfolding s_def by (simp add: run_defs token_on_def example_call_def two_chains_def both_written_def)
  have st: "step two_chains s (SetSettles 1 None) = Some s'"
    unfolding s'_def s_def by (simp add: run_defs token_on_def example_call_def two_chains_def both_written_def)
  have h: "tasks s ! 1 = (1, token_on ''0xabc'' 137 ''polygon'', AwaitSet ''0xabc'' ''0xabc@polygon'')"
    "cache s = [''0xabc'' \<mapsto> ''0xabc@ethereum'']"
    unfolding s_def by (simp_all add: run_defs token_on_def example_call_def two_chains_def both_written_def cached_record_def)
  from C9_cache_keyed_by_address [OF r h(1) st]
  have "cache s' = (cache s)(address (token_on ''0xabc'' 137 ''polygon'') \<mapsto> ''0xabc@polygon'')"
    by blast
  then have "cache s' = [''0xabc'' \<mapsto> ''0xabc@polygon'']"
    using h(2) by (simp add: token_on_def)
  then have "cache s' ''0xabc'' = Some ''0xabc@polygon'' \<and> dom (cache s') = {''0xabc''}"
    by simp
  then show ?thesis using r st h(2) by auto
qed

section \<open>The policies of the per-token pipeline\<close>

text \<open>
  Claim C5, as amended.  When \<open>client.get\<close> resolves with a value that is not empty for
  the address of the token, and \<open>forceUpdate\<close> is false, the task returns at once:
  \<open>skipped\<close> and \<open>processed\<close> grow by one, the other counters and the cache are unchanged,
  the only event is the settlement of the task (no call of the transaction collector, of
  the metadata service or of \<open>client.set\<close>), and no later occurrence is possible for
  the task.
\<close>

theorem C5_skip_when_cached:
  assumes "step args s (GetSettles n None) = Some s'"
    and "tasks s ! n = (j, token, k)"
    and "cache s (address token) = Some existing" "existing \<noteq> []" "\<not> forceUpdate args"
  shows "skipped s' = skipped s + 1 \<and> processed s' = processed s + 1 \<and>
    updated s' = updated s \<and> noData s' = noData s \<and> failed s' = failed s \<and>
    cache s' = cache s \<and> trace s' = trace s @ [Settled j] \<and>
    tasks s' = (tasks s)[n := (j, token, Fulfilled)] \<and>
    (\<forall>e. task_of e = Some n \<longrightarrow> step args s' e = None)"
proof -
  have c: "control s = AwaitAll" "n < length (tasks s)"
    using step_of_task [OF assms(1)] by simp_all
  have k: "k = AwaitGet" using assms(1,2) c by (cases k) simp_all
  have s': "s' = (finally_block j (s\<lparr>skipped := skipped s + 1\<rparr>))\<lparr>tasks := (tasks s)[n := (j, token, Fulfilled)]\<rparr>"
    using assms c k by (simp add: resume_def after_get_def truthy_string_def)
  then have t: "tasks s' ! n = (j, token, Fulfilled)" using c by simp
  have "\<forall>e. task_of e = Some n \<longrightarrow> step args s' e = None"
    using settled_task_stays [OF t] by blast
  then show ?thesis using s' by (simp add: finally_block_def)
qed

theorem C5_witness:
  "\<exists>s s'. run one_token (initial scored_entry) [Tick] = Some s \<and>
     step one_token s (GetSettles 0 None) = Some s' \<and>
     skipped s' = 1 \<and> processed s' = 1 \<and> cache s' = cache s \<and> trace s' = trace s @ [Settled 0] \<and>
     step one_token s' (TransactionsSettle 0 (Inr (Some [1]))) = None"
proof -
  define s where "s = launch one_token (initial scored_entry :: nat state)"
  define s' where "s' = the (step one_token s (GetSettles 0 None))"
  have r: "run one_token (initial scored_entry) [Tick] = Some s"
    unfolding s_def by (simp add: initial_def token_on_def example_call_def one_token_def scored_entry_def)
  have st: "step one_token s (GetSettles 0 None) = Some s'"
    unfolding s'_def s_def by (simp add: run_defs token_on_def example_call_def one_token_def scored_entry_def)
  have h: "tasks s ! 0 = (0, token_on ''0xabc'' 1 ''ethereum'', AwaitGet)"
    "cache s (address (token_on ''0xabc'' 1 ''ethereum'')) = Some ''0xabc@ethereum''"
    "''0xabc@ethereum'' \<noteq> []" "\<not> forceUpdate one_token"
    "skipped s = 0" "processed s = 0"
    unfolding s_def by (simp_all add: run_defs token_on_def example_call_def one_token_def scored_entry_def)
  have t: "task_of (TransactionsSettle 0 (Inr (Some [1::nat])) :: (nat, unit) occurrence) = Some 0"
    by simp
  from C5_skip_when_cached [OF st h(1,2,3,4)] h(5,6) t
  have "skipped s' = 1 \<and> processed s' = 1 \<and> cache s' = cache s \<and> trace s' = trace s @ [Settled 0] \<and>
     step one_token s' (TransactionsSettle 0 (Inr (Some [1]))) = None"
    by simp
  then show ?thesis using r st by blast
qed

text \<open>
  The claim as it is stated, for every cache that holds an entry for the address, fails in
  two ways.  An entry that is the empty string is falsy for the test: the token is not
  skipped and its transactions are fetched.  And when \<open>client.get\<close> rejects, the token is
  counted as failed, not as skipped, whatever the cache holds.
\<close>

theorem C5_counterexample:
  "empty_entry ''0xabc'' = Some [] \<and> forceUpdate one_token = False \<and>
   map_option skipped empty_entry_run = Some 0 \<and>
   map_option trace empty_entry_run =
     Some [Started 0, Called 0 (ClientGet ''0xabc''), Called 0 (GetAllTokenTransactions ''0xabc'')] \<and>
   map_option tasks empty_entry_run =
     Some [(0, token_on ''0xabc'' 1 ''ethereum'', AwaitTransactions)] \<and>
   scored_entry ''0xabc'' = Some ''0xabc@ethereum'' \<and>
   map_option skipped get_fails_run = Some 0 \<and> map_option failed get_fails_run = Some 1"
  by (simp add: run_defs token_on_def example_call_def one_token_def empty_entry_def
      scored_entry_def empty_entry_run_def get_fails_run_def)

text \<open>
  Claim C6, as amended.  When the transaction fetch and the metadata fetch of a token have
  both resolved, and the transactions are absent or empty or the metadata is absent, the
  task returns with \<open>noData\<close> and \<open>processed\<close> grown by one: \<open>failed\<close> and the other
  counters are unchanged, nothing is written (the cache is unchanged and the only event is
  the settlement of the task), and no later occurrence is possible for the task.
\<close>

theorem C6_no_data_when_both_fetches_return:
  assumes "step args s (MetadataSettles n (Inr analysis) now) = Some s'"
    and "tasks s ! n = (j, token, AwaitMetadata transactions)"
    and "transactions = None \<or> transactions = Some [] \<or> analysis = None"
  shows "noData s' = noData s + 1 \<and> failed s' = failed s \<and> processed s' = processed s + 1 \<and>
    updated s' = updated s \<and> skipped s' = skipped s \<and>
    cache s' = cache s \<and> trace s' = trace s @ [Settled j] \<and>
    tasks s' = (tasks s)[n := (j, token, Fulfilled)] \<and>
    (\<forall>e. task_of e = Some n \<longrightarrow> step args s' e = None)"
proof -
  have c: "control s = AwaitAll" "n < length (tasks s)"
    using step_of_task [OF assms(1)] by simp_all
  have "after_metadata args j token transactions (Inr analysis) now s =
      (Fulfilled, finally_block j (s\<lparr>noData := noData s + 1\<rparr>))"
    using assms(3) by (auto simp: after_metadata_def split: option.splits)
  then have s': "s' = (finally_block j (s\<lparr>noData := noData s + 1\<rparr>))\<lparr>tasks := (tasks s)[n := (j, token, Fulfilled)]\<rparr>"
    using assms(1,2) c by (simp add: resume_def)
  then have t: "tasks s' ! n = (j, token, Fulfilled)" using c by simp
  have "\<forall>e. task_of e = Some n \<longrightarrow> step args s' e = None"
    using settled_task_stays [OF t] by blast
  then show ?thesis using s' by (simp add: finally_block_def)
qed

theorem C6_witness:
  "\<exists>s s'. run one_token (initial Map.empty)
       [Tick, GetSettles 0 None, TransactionsSettle 0 (Inr (Some []))] = Some s \<and>
     step one_token s (MetadataSettles 0 (Inr (Some ())) 0) = Some s' \<and>
     noData s' = 1 \<and> failed s' = 0 \<and> processed s' = 1 \<and> cache s' = cache s \<and>
     trace s' = trace s @ [Settled 0]"
proof -
  define s where "s = the (run one_token (initial Map.empty)
       [Tick, GetSettles 0 None, TransactionsSettle 0 (Inr (Some []))])"
  define s' where "s' = the (step one_token s (MetadataSettles 0 (Inr (Some ())) 0))"
  have r: "run one_token (initial Map.empty)
       [Tick, GetSettles 0 None, TransactionsSettle 0 (Inr (Some []))] = Some s"
    unfolding s_def by (simp add: run_defs token_on_def example_call_def one_token_def)
  have st: "step one_token s (MetadataSettles 0 (Inr (Some ())) 0) = Some s'"
    unfolding s'_def s_def by (simp add: run_defs token_on_def example_call_def one_token_def)
  have h: "tasks s ! 0 = (0, token_on ''0xabc'' 1 ''ethereum'', AwaitMetadata (Some []))"
    "noData s = 0" "failed s = 0" "processed s = 0"
    unfolding s_def by (simp_all add: run_defs token_on_def example_call_def one_token_def)
  have d: "Some [] = None \<or> Some [] = Some ([] :: nat list) \<or> Some () = None" by simp
  from C6_no_data_when_both_fetches_return [OF st h(1) d] h(2,3,4)
  have "noData s' = 1 \<and> failed s' = 0 \<and> processed s' = 1 \<and> cache s' = cache s \<and>
     trace s' = trace s @ [Settled 0]"
    by simp
  then show ?thesis using r st by blast
qed

text \<open>
  The claim as it is stated fails when the transaction fetch returns zero events and the
  metadata fetch, which is awaited before the transactions are looked at, rejects: the
  token is counted as failed, and \<open>noData\<close> stays as it was.
\<close>

theorem C6_counterexample:
  "map_option failed metadata_fails_run = Some 1 \<and>
   map_option noData metadata_fails_run = Some 0 \<and>
   map_option trace metadata_fails_run =
     Some [Started 0, Called 0 (ClientGet ''0xabc''), Called 0 (GetAllTokenTransactions ''0xabc''),
           Called 0 (Metadata ''0xabc''), LoggedError 0 ''metadata service unreachable'', Settled 0]"
  by (simp add: run_defs token_on_def example_call_def one_token_def metadata_fails_run_def)

text \<open>
  Claim C7.  An exception in the pipeline of a token (a rejected \<open>client.get\<close>,
  transaction fetch, metadata fetch or \<open>client.set\<close>, or a throw of the accumulator) is
  caught in the task: \<open>failed\<close> and \<open>processed\<close> grow by one, the other counters and the
  cache are unchanged, the error is logged exactly when at most five failures have been
  counted, and the task settles as fulfilled; the other tasks of the batch and the driver
  loop are untouched.  In a run with a positive concurrency the call can still return
  after the failure, and whenever it returns every token has been processed.
\<close>

theorem C7_failure_is_caught_and_counted:
  assumes "step args s e = Some s'" "tasks s ! n = (j, token, k)"
    and "rejection e = Some (n, err) \<or>
      (\<exists>txs meta now. e = MetadataSettles n (Inr (Some meta)) now \<and> k = AwaitMetadata (Some txs) \<and>
         txs \<noteq> [] \<and> analyzeOnChain args txs meta = Inl err)"
  shows "failed s' = failed s + 1 \<and> processed s' = processed s + 1 \<and>
    updated s' = updated s \<and> skipped s' = skipped s \<and> noData s' = noData s \<and>
    cache s' = cache s \<and>
    trace s' = trace s @ (if failed s < 5 then [LoggedError j err] else []) @ [Settled j] \<and>
    tasks s' = (tasks s)[n := (j, token, Fulfilled)] \<and> control s' = AwaitAll \<and> i s' = i s \<and>
    (\<forall>c es. run args (initial c) es = Some s \<and> 0 < concurrency args \<longrightarrow>
        (\<exists>es' final r. run args s' es' = Some final \<and> control final = Returned r) \<and>
        (\<forall>es' final r. run args s' es' = Some final \<and> control final = Returned r
            \<longrightarrow> processed final = length (tokens args)))"
proof -
  have "task_of e = Some n"
    using assms(3) by (cases e rule: rejection.cases) auto
  then have c: "control s = AwaitAll" using step_of_task [OF assms(1)] by simp
  have "\<forall>c es. run args (initial c) es = Some s \<and> 0 < concurrency args \<longrightarrow>
        (\<exists>es' final r. run args s' es' = Some final \<and> control final = Returned r) \<and>
        (\<forall>es' final r. run args s' es' = Some final \<and> control final = Returned r
            \<longrightarrow> processed final = length (tokens args))"
  proof (intro allI impI, elim conjE)
    fix c es
    assume r: "run args (initial c) es = Some s" and p: "0 < concurrency args"
    have "\<forall>es' final r. run args s' es' = Some final \<and> control final = Returned r
            \<longrightarrow> processed final = length (tokens args)"
    proof (intro allI impI, elim conjE)
      fix es' final r'
      assume f: "run args s' es' = Some final" "control final = Returned r'"
      have "run args (initial c) (es @ e # es') = Some final"
        using r assms(1) f(1) by (simp add: run_append)
      then show "processed final = length (tokens args)"
        using all_processed_at_return(1) [OF p _ f(2)] by blast
    qed
    then show "(\<exists>es' final r. run args s' es' = Some final \<and> control final = Returned r) \<and>
        (\<forall>es' final r. run args s' es' = Some final \<and> control final = Returned r
            \<longrightarrow> processed final = length (tokens args))"
      using completion_reachable [OF p, of s'] by blast
  qed
  moreover have "failed s' = failed s + 1 \<and> processed s' = processed s + 1 \<and>
    updated s' = updated s \<and> skipped s' = skipped s \<and> noData s' = noData s \<and>
    cache s' = cache s \<and>
    trace s' = trace s @ (if failed s < 5 then [LoggedError j err] else []) @ [Settled j] \<and>
    tasks s' = (tasks s)[n := (j, token, Fulfilled)] \<and> control s' = AwaitAll \<and> i s' = i s"
    unfolding caught [OF assms] failure_settles using c by simp
  ultimately show ?thesis by blast
qed

theorem C7_witness:
  "\<exists>s s'. run four_tokens (initial Map.empty)
       [Tick, GetSettles 1 None, GetSettles 0 None, TransactionsSettle 1 (Inr (Some []))] = Some s \<and>
     step four_tokens s (TransactionsSettle 0 (Inl ''timeout'')) = Some s' \<and>
     failed s' = 1 \<and> processed s' = 1 \<and> cache s' = cache s \<and>
     trace s' = trace s @ [LoggedError 0 ''timeout'', Settled 0] \<and>
     tasks s' ! 1 = tasks s ! 1 \<and> control s' = AwaitAll"
proof -
  define s where "s = the (run four_tokens (initial Map.empty)
       [Tick, GetSettles 1 None, GetSettles 0 None, TransactionsSettle 1 (Inr (Some []))])"
  define s' where "s' = the (step four_tokens s (TransactionsSettle 0 (Inl ''timeout'')))"
  have r: "run four_tokens (initial Map.empty)
       [Tick, GetSettles 1 None, GetSettles 0 None, TransactionsSettle 1 (Inr (Some []))] = Some s"
    unfolding s_def by (simp add: run_defs token_on_def example_call_def four_tokens_def)
  have st: "step four_tokens s (TransactionsSettle 0 (Inl ''timeout'')) = Some s'"
    unfolding s'_def s_def by (simp add: run_defs token_on_def example_call_def four_tokens_def)
  have h: "tasks s ! 0 = (0, token_on ''0xa'' 1 ''ethereum'', AwaitTransactions)"
    "failed s = 0" "processed s = 0" "length (tasks s) = 2"
    unfolding s_def by (simp_all add: run_defs token_on_def example_call_def four_tokens_def)
  have d: "rejection (TransactionsSettle 0 (Inl ''timeout'') :: (nat, unit) occurrence) = Some (0, ''timeout'') \<or>
      (\<exists>txs meta now. (TransactionsSettle 0 (Inl ''timeout'') :: (nat, unit) occurrence) =
          MetadataSettles 0 (Inr (Some meta)) now \<and>
         AwaitTransactions = AwaitMetadata (Some txs) \<and>
         txs \<noteq> [] \<and> analyzeOnChain four_tokens txs meta = Inl ''timeout'')"
    by simp
  from C7_failure_is_caught_and_counted [OF st h(1) d] h(2,3,4)
  have "failed s' = 1 \<and> processed s' = 1 \<and> cache s' = cache s \<and>
     trace s' = trace s @ [LoggedError 0 ''timeout'', Settled 0] \<and>
     tasks s' ! 1 = tasks s ! 1 \<and> control s' = AwaitAll"
    by simp
  then show ?thesis using r st by blast
qed

section \<open>The routes\<close>

lemma slice_prefix: "0 \<le> r \<Longrightarrow> slice xs 0 r = take (nat \<lfloor>r\<rfloor>) xs"
  by (simp add: slice_def relative_index_def ToIntegerOrInfinity_def Let_def min_def)

lemma limit_zero: "limit_of (Some ''0'') = 100"
  by (simp add: limit_of_def parseInt_def white_space_def digit_in_def digit_of_def Let_def)

lemma limit_hundred: "limit_of (Some ''100'') = 100"
  by (simp add: limit_of_def parseInt_def white_space_def digit_in_def digit_of_def Let_def)

lemma limit_absent: "limit_of None = 100"
  by (simp add: limit_of_def parseInt_def white_space_def digit_in_def digit_of_def Let_def)

lemma or_default_zero: "or_default (Some 0) d = d" "or_default None d = d"
  by (simp_all add: or_default_def falsy_def)

lemma or_default_falsy: "falsy v \<Longrightarrow> or_default v d = d"
  by (simp add: or_default_def)

lemma trending_limit:
  assumes "limit_of q = limit_of q'"
  shows "trending_tokens ks get parse q ch = trending_tokens ks get parse q' ch"
  using assms by (simp add: trending_tokens_def)

lemma trending_at_most_hundred:
  assumes "trending_tokens ks get parse (Some ''0'') ch = (200, Inr t)"
  shows "returned t = min 100 (total t)" "length (listed t) = returned t"
proof -
  have s: "\<And>xs :: parsed_token list. length (slice xs 0 100) = min 100 (length xs)"
    by (simp add: slice_prefix)
  from assms show "returned t = min 100 (total t)" "length (listed t) = returned t"
    by (auto simp: trending_tokens_def limit_zero Let_def s split: sum.splits)
qed

lemma message_of_dbinit:
  assumes "fetch (or_default dy 30) = Inr found"
  shows "status (dbinit fetch mt dy) = 200"
    "map_of (body (dbinit fetch mt dy)) ''message'' = Some (JStr ''Database initialization started'')"
    "background (dbinit fetch mt dy) =
       Some (AnalyzeAndStoreTokens (slice found 0 (or_default mt 5000)) False 20)"
  using assms by (simp_all add: dbinit_def Let_def)

lemma message_of_refresh:
  assumes "fetch (or_default dy 2) = Inr found"
  shows "status (refresh_tokens fetch dy mt) = 200"
    "map_of (body (refresh_tokens fetch dy mt)) ''message'' = Some (JStr ''Token refresh started'')"
    "background (refresh_tokens fetch dy mt) =
       Some (AnalyzeAndStoreTokens (slice found 0 (or_default mt 1000)) True 15)"
  using assms by (simp_all add: refresh_tokens_def Let_def)

lemma message_of_update:
  assumes "keys \<noteq> []"
  shows "status (update_all_scores (Inr keys) cc) = 200"
    "map_of (body (update_all_scores (Inr keys) cc)) ''message'' = Some (JStr ''Full database update started'')"
    "background (update_all_scores (Inr keys) cc) = Some (UpdateAllTokenScores (or_default cc 10))"
  using assms by (simp_all add: update_all_scores_def Let_def)

lemma message_of_empty_update:
  "status (update_all_scores (Inr []) cc) = 200"
  "map_of (body (update_all_scores (Inr []) cc)) ''message'' =
     Some (JStr ''No tokens in database. Use /dbinit first.'')"
  "background (update_all_scores (Inr []) cc) = None"
  by (simp_all add: update_all_scores_def Let_def)

lemma message_of_add:
  "status (add_new_tokens dy mn) = 200"
  "map_of (body (add_new_tokens dy mn)) ''message'' = Some (JStr ''Checking for new tokens...'')"
  "background (add_new_tokens dy mn) = Some (AddNewTokens (or_default dy 1) (or_default mn 500))"
  by (simp_all add: add_new_tokens_def Let_def)

text \<open>
  Claim C8, as amended.  A background-triggered route answers 200 with its acknowledgment
  and starts its batch when what it awaits before responding succeeds: \<open>POST /dbinit\<close>
  and \<open>POST /refresh-tokens\<close> when the token discovery returns, \<open>POST /update-all-scores\<close>
  when the listing of the keys returns a list that is not empty, \<open>POST /add-new-tokens\<close>
  always.  When the discovery or the listing of the keys throws, the route answers 500
  with an error body and starts nothing; on an empty cache \<open>POST /update-all-scores\<close>
  answers 200 with the message that there are no tokens, and starts nothing.
\<close>

theorem C8_started_when_preliminaries_succeed:
  "(fetch (or_default dy 30) = Inr found \<longrightarrow>
      status (dbinit fetch mt dy) = 200 \<and>
      map_of (body (dbinit fetch mt dy)) ''message'' = Some (JStr ''Database initialization started'') \<and>
      background (dbinit fetch mt dy) =
        Some (AnalyzeAndStoreTokens (slice found 0 (or_default mt 5000)) False 20)) \<and>
   (fetch (or_default dy 30) = Inl err \<longrightarrow>
      dbinit fetch mt dy = failure_reply ''Failed to initialize database'') \<and>
   (fetch (or_default dy 2) = Inr found \<longrightarrow>
      status (refresh_tokens fetch dy mt) = 200 \<and>
      map_of (body (refresh_tokens fetch dy mt)) ''message'' = Some (JStr ''Token refresh started'') \<and>
      background (refresh_tokens fetch dy mt) =
        Some (AnalyzeAndStoreTokens (slice found 0 (or_default mt 1000)) True 15)) \<and>
   (fetch (or_default dy 2) = Inl err \<longrightarrow>
      refresh_tokens fetch dy mt = failure_reply ''Failed to refresh tokens'') \<and>
   (keys \<noteq> [] \<longrightarrow>
      status (update_all_scores (Inr keys) cc) = 200 \<and>
      map_of (body (update_all_scores (Inr keys) cc)) ''message'' =
        Some (JStr ''Full database update started'') \<and>
      background (update_all_scores (Inr keys) cc) = Some (UpdateAllTokenScores (or_default cc 10))) \<and>
   status (update_all_scores (Inr []) cc) = 200 \<and>
   map_of (body (update_all_scores (Inr []) cc)) ''message'' =
     Some (JStr ''No tokens in database. Use /dbinit first.'') \<and>
   background (update_all_scores (Inr []) cc) = None \<and>
   update_all_scores (Inl err) cc = failure_reply ''Failed to update all scores'' \<and>
   status (add_new_tokens dy mn) = 200 \<and>
   map_of (body (add_new_tokens dy mn)) ''message'' = Some (JStr ''Checking for new tokens...'') \<and>
   background (add_new_tokens dy mn) = Some (AddNewTokens (or_default dy 1) (or_default mn 500)) \<and>
   status (failure_reply msg) = 500 \<and> background (failure_reply msg) = None"
proof -
  have "fetch (or_default dy 30) = Inl err \<longrightarrow>
      dbinit fetch mt dy = failure_reply ''Failed to initialize database''"
    by (simp add: dbinit_def Let_def)
  moreover have "fetch (or_default dy 2) = Inl err \<longrightarrow>
      refresh_tokens fetch dy mt = failure_reply ''Failed to refresh tokens''"
    by (simp add: refresh_tokens_def Let_def)
  moreover have "update_all_scores (Inl err) cc = failure_reply ''Failed to update all scores''"
    by (simp add: update_all_scores_def Let_def)
  moreover have "status (failure_reply msg) = 500 \<and> background (failure_reply msg) = None"
    by (simp add: failure_reply_def)
  ultimately show ?thesis
    using message_of_dbinit [of fetch dy found mt] message_of_refresh [of fetch dy found mt]
      message_of_update [of keys cc] message_of_empty_update [of cc] message_of_add [of dy mn]
    by blast
qed

theorem C8_witness:
  "status (dbinit two_found None None) = 200 \<and>
   background (dbinit two_found None None) =
     Some (AnalyzeAndStoreTokens [token_on ''0xa'' 1 ''ethereum'', token_on ''0xb'' 8453 ''base''] False 20) \<and>
   dbinit failing_discovery None None = failure_reply ''Failed to initialize database'' \<and>
   status (refresh_tokens two_found None None) = 200 \<and>
   refresh_tokens failing_discovery None None = failure_reply ''Failed to refresh tokens'' \<and>
   status (update_all_scores (Inr [''0xa'']) None) = 200 \<and>
   background (update_all_scores (Inr [''0xa'']) None) = Some (UpdateAllTokenScores 10) \<and>
   status (failure_reply ''Failed to initialize database'') = 500"
proof -
  have f: "two_found (or_default None 30) = Inr [token_on ''0xa'' 1 ''ethereum'', token_on ''0xb'' 8453 ''base'']"
    "two_found (or_default None 2) = Inr [token_on ''0xa'' 1 ''ethereum'', token_on ''0xb'' 8453 ''base'']"
    "failing_discovery (or_default None 30) = Inl ''scan failed''"
    "failing_discovery (or_default None 2) = Inl ''scan failed''"
    "[''0xa''] \<noteq> []"
    by (simp_all add: two_found_def failing_discovery_def)
  have s: "slice [token_on ''0xa'' 1 ''ethereum'', token_on ''0xb'' 8453 ''base''] 0 (or_default None 5000)
      = [token_on ''0xa'' 1 ''ethereum'', token_on ''0xb'' 8453 ''base'']"
    by (simp add: slice_prefix or_default_zero)
  show ?thesis
    using C8_started_when_preliminaries_succeed [of two_found None
        "[token_on ''0xa'' 1 ''ethereum'', token_on ''0xb'' 8453 ''base'']" None
        "''scan failed''" "[''0xa'']" None None "''Failed to initialize database''"]
      C8_started_when_preliminaries_succeed [of failing_discovery None
        "[]" None "''scan failed''" "[''0xa'']" None None "''Failed to initialize database''"]
      f s
    by (simp add: or_default_zero)
qed

text \<open>
  The claim as it is stated fails: when the token discovery throws, \<open>POST /dbinit\<close>
  answers 500.
\<close>

theorem C8_counterexample: "status (dbinit failing_discovery None None) = 500"
  by (simp add: dbinit_def failing_discovery_def failure_reply_def Let_def)

text \<open>
  Claim C10.  A numeric parameter that is falsy (absent, or zero) is replaced by the
  default of the route.  \<open>POST /dbinit\<close> with \<open>maxTokens = 0\<close> and \<open>days = 0\<close> does what it
  does with 5000 and 30: it scans 30 days and processes the first 5000 tokens at most;
  \<open>POST /refresh-tokens\<close> falls back to 2 days and 1000 tokens, \<open>POST /add-new-tokens\<close> to
  1 day and 500 tokens; \<open>POST /update-all-scores\<close> with \<open>concurrency = 0\<close> starts the
  update with concurrency 10; \<open>GET /trending-tokens\<close> with \<open>limit=0\<close>, or with no limit,
  answers as with \<open>limit=100\<close>: at most 100 records.
\<close>

theorem C10_falsy_parameter_takes_default:
  "(falsy v \<longrightarrow> or_default v d = d) \<and>
   dbinit fetch (Some 0) (Some 0) = dbinit fetch (Some 5000) (Some 30) \<and>
   dbinit fetch None None = dbinit fetch (Some 5000) (Some 30) \<and>
   (fetch 30 = Inr found \<longrightarrow>
      background (dbinit fetch (Some 0) (Some 0)) =
        Some (AnalyzeAndStoreTokens (take 5000 found) False 20)) \<and>
   refresh_tokens fetch (Some 0) (Some 0) = refresh_tokens fetch (Some 2) (Some 1000) \<and>
   update_all_scores keys (Some 0) = update_all_scores keys (Some 10) \<and>
   background (update_all_scores (Inr (key # others)) (Some 0)) = Some (UpdateAllTokenScores 10) \<and>
   add_new_tokens (Some 0) (Some 0) = add_new_tokens (Some 1) (Some 500) \<and>
   background (add_new_tokens (Some 0) (Some 0)) = Some (AddNewTokens 1 500) \<and>
   trending_tokens ks get parse (Some ''0'') ch = trending_tokens ks get parse (Some ''100'') ch \<and>
   trending_tokens ks get parse None ch = trending_tokens ks get parse (Some ''100'') ch \<and>
   (trending_tokens ks get parse (Some ''0'') ch = (200, Inr t) \<longrightarrow>
      returned t = min 100 (total t) \<and> length (listed t) = returned t)"
proof -
  have d: "dbinit fetch (Some 0) (Some 0) = dbinit fetch (Some 5000) (Some 30)"
    "dbinit fetch None None = dbinit fetch (Some 5000) (Some 30)"
    by (simp_all add: dbinit_def or_default_def falsy_def)
  have b: "fetch 30 = Inr found \<longrightarrow>
      background (dbinit fetch (Some 0) (Some 0)) =
        Some (AnalyzeAndStoreTokens (take 5000 found) False 20)"
    by (simp add: dbinit_def or_default_def falsy_def slice_prefix)
  have r: "refresh_tokens fetch (Some 0) (Some 0) = refresh_tokens fetch (Some 2) (Some 1000)"
    by (simp add: refresh_tokens_def or_default_def falsy_def)
  have u: "update_all_scores keys (Some 0) = update_all_scores keys (Some 10)"
    "background (update_all_scores (Inr (key # others)) (Some 0)) = Some (UpdateAllTokenScores 10)"
    by (simp_all add: update_all_scores_def or_default_def falsy_def)
  have a: "add_new_tokens (Some 0) (Some 0) = add_new_tokens (Some 1) (Some 500)"
    "background (add_new_tokens (Some 0) (Some 0)) = Some (AddNewTokens 1 500)"
    by (simp_all add: add_new_tokens_def or_default_def falsy_def)
  have t: "trending_tokens ks get parse (Some ''0'') ch = trending_tokens ks get parse (Some ''100'') ch"
    "trending_tokens ks get parse None ch = trending_tokens ks get parse (Some ''100'') ch"
    by (rule trending_limit, simp add: limit_zero limit_hundred limit_absent)+
  show ?thesis
    using or_default_falsy [of v d] d b r u a t trending_at_most_hundred [of ks get parse ch t]
    by blast
qed

theorem C10_witness:
  "falsy (Some 0) \<and> or_default (Some 0) 5000 = 5000 \<and>
   background (dbinit two_found (Some 0) (Some 0)) =
     Some (AnalyzeAndStoreTokens [token_on ''0xa'' 1 ''ethereum'', token_on ''0xb'' 8453 ''base''] False 20) \<and>
   fst (trending_tokens (Inr [''0xa'']) example_get example_parse (Some ''0'') None) = 200 \<and>
   map_sum id returned (snd (trending_tokens (Inr [''0xa'']) example_get example_parse (Some ''0'') None))
     = Inr 1"
proof -
  let ?t = "\<lparr> total = 1, returned = 1, chain = ''all'',
    listed = [\<lparr> parsed_chainName = Some ''Base'', parsed_trendingscore = Some 47, parsed_text = ''0xa'' \<rparr>] \<rparr>"
  have f: "falsy (Some 0)" by (simp add: falsy_def)
  have g: "two_found 30 = Inr [token_on ''0xa'' 1 ''ethereum'', token_on ''0xb'' 8453 ''base'']"
    by (simp add: two_found_def)
  have h: "trending_tokens (Inr [''0xa'']) example_get example_parse (Some ''0'') None = (200, Inr ?t)"
    by (simp add: trending_tokens_def limit_zero example_get_def example_parse_def truthy_string_def
        slice_prefix Let_def)
  note c = C10_falsy_parameter_takes_default [of "Some 0" 5000 two_found
      "[token_on ''0xa'' 1 ''ethereum'', token_on ''0xb'' 8453 ''base'']" "Inr []" "''0xa''" "[]"
      "Inr [''0xa'']" example_get example_parse None ?t]
  from c f have 1: "or_default (Some 0) 5000 = 5000" by blast
  from c g have "background (dbinit two_found (Some 0) (Some 0)) =
     Some (AnalyzeAndStoreTokens
       (take 5000 [token_on ''0xa'' 1 ''ethereum'', token_on ''0xb'' 8453 ''base'']) False 20)"
    by blast
  then have 2: "background (dbinit two_found (Some 0) (Some 0)) =
     Some (AnalyzeAndStoreTokens [token_on ''0xa'' 1 ''ethereum'', token_on ''0xb'' 8453 ''base''] False 20)"
    by simp
  from c h have 3: "returned ?t = min 100 (total ?t)" by blast
  show ?thesis using f 1 2 3 by (simp add: h)
qed

end
